theory Spec2Isabelle
  imports Main "HOL-Library.Sublist"
begin

section \<open>JavaScript values held by the cache\<close>

text \<open>
  The cache of \<^verbatim>\<open>cachingFetch.ts\<close> is a JavaScript \<^verbatim>\<open>Map\<close> whose values are whatever
  \<^verbatim>\<open>response.json()\<close> or \<^verbatim>\<open>JSON.parse\<close> produced. The values are modelled as a datatype:
  the JSON values plus \<^verbatim>\<open>undefined\<close>, which \<^verbatim>\<open>Map.get\<close> returns for a missing key and which
  the \<^verbatim>\<open>Map\<close> constructor reads from an entry that is too short.

  A number \<open>JNum m e\<close> stands for the decimal \<open>m * 10 ^ e\<close>, kept normalised (no trailing
  zero in \<open>m\<close>, and \<open>0\<close> is \<open>JNum 0 0\<close>). Rounding to binary64 is not modelled. Strings are
  lists of \<^typ>\<open>char\<close>: code units below 256.
\<close>

datatype jsval =
    JUndefined
  | JNull
  | JBool bool
  | JNum int int
  | JStr string
  | JArr "jsval list"
  | JObj "(string \<times> jsval) list"

datatype js_error =
    Error string
  | SyntaxError
  | TypeError

subsection \<open>Printing numbers\<close>

definition digit_char :: "nat \<Rightarrow> char" where
  "digit_char d = ''0123456789abcdef'' ! d"

function show_nat :: "nat \<Rightarrow> string" where
  "show_nat n = (if n < 10 then [digit_char n] else show_nat (n div 10) @ [digit_char (n mod 10)])"
  by pat_completeness auto
termination
  by (relation "measure id") auto

declare show_nat.simps [simp del]

text \<open>
  \<^verbatim>\<open>Number::toString\<close> of ECMAScript on the decimal \<open>m * 10 ^ e\<close> with digits \<open>s\<close>,
  \<open>k = length s\<close> and \<open>n = k + e\<close>: plain digits up to \<open>10 ^ 21\<close>, a decimal point inside or
  after \<open>0.\<close> down to \<open>10 ^ -6\<close>, exponent notation otherwise.
\<close>

definition show_number :: "int \<Rightarrow> int \<Rightarrow> string" where
  "show_number m e =
     (if m = 0 then ''0''
      else
        let s = show_nat (nat \<bar>m\<bar>);
            k = int (length s);
            n = k + e;
            sign = (if m < 0 then ''-'' else '''')
        in if k \<le> n \<and> n \<le> 21 then sign @ s @ replicate (nat (n - k)) (CHR ''0'')
           else if 0 < n \<and> n \<le> 21 then sign @ take (nat n) s @ ''.'' @ drop (nat n) s
           else if - 6 < n \<and> n \<le> 0 then sign @ ''0.'' @ replicate (nat (- n)) (CHR ''0'') @ s
           else
             let x = (if n - 1 < 0 then ''-'' else ''+'') @ show_nat (nat \<bar>n - 1\<bar>)
             in if k = 1 then sign @ s @ ''e'' @ x
                else sign @ take 1 s @ ''.'' @ drop 1 s @ ''e'' @ x)"

subsection \<open>\<^verbatim>\<open>JSON.stringify\<close>\<close>

definition hex2 :: "nat \<Rightarrow> string" where
  "hex2 n = [digit_char (n div 16), digit_char (n mod 16)]"

definition quote_char :: "char \<Rightarrow> string" where
  "quote_char c =
     (if c = CHR 0x08 then [CHR 0x5C, CHR ''b'']
      else if c = CHR 0x09 then [CHR 0x5C, CHR ''t'']
      else if c = CHR 0x0A then [CHR 0x5C, CHR ''n'']
      else if c = CHR 0x0C then [CHR 0x5C, CHR ''f'']
      else if c = CHR 0x0D then [CHR 0x5C, CHR ''r'']
      else if c = CHR 0x22 then [CHR 0x5C, CHR 0x22]
      else if c = CHR 0x5C then [CHR 0x5C, CHR 0x5C]
      else if (of_char c :: nat) < 32 then [CHR 0x5C, CHR ''u'', CHR ''0'', CHR ''0''] @ hex2 (of_char c)
      else [c])"

definition quote_string :: "string \<Rightarrow> string" where
  "quote_string s = [CHR 0x22] @ concat (map quote_char s) @ [CHR 0x22]"

fun join_comma :: "string list \<Rightarrow> string" where
  "join_comma [] = []"
| "join_comma [x] = x"
| "join_comma (x # y # ys) = x @ '','' @ join_comma (y # ys)"

text \<open>
  The text of a value inside an array (\<^verbatim>\<open>SerializeJSONProperty\<close> with no indentation):
  \<^verbatim>\<open>undefined\<close> prints as \<^verbatim>\<open>null\<close> in an array and the property is left out of an object.
\<close>

fun json_text :: "jsval \<Rightarrow> string" where
  "json_text JUndefined = ''null''"
| "json_text JNull = ''null''"
| "json_text (JBool b) = (if b then ''true'' else ''false'')"
| "json_text (JNum m e) = show_number m e"
| "json_text (JStr s) = quote_string s"
| "json_text (JArr xs) = ''['' @ join_comma (map json_text xs) @ '']''"
| "json_text (JObj ms) =
     ''{'' @ join_comma (map (\<lambda>kv. quote_string (fst kv) @ '':'' @ json_text (snd kv))
                            (filter (\<lambda>kv. snd kv \<noteq> JUndefined) ms)) @ ''}''"

definition JSON_stringify :: "jsval \<Rightarrow> string" where
  "JSON_stringify v = json_text v"

subsection \<open>\<^verbatim>\<open>JSON.parse\<close>\<close>

text \<open>
  A recursive-descent reader of the JSON grammar (ECMA-404): white space between tokens,
  the three literals, numbers with fraction and exponent, strings with escapes, arrays
  and objects. A repeated object key keeps its first position and its last value, as
  property definition does. (ECMAScript moves integer-like keys to the front of an
  object; the model keeps the order of the text.) An escape \<^verbatim>\<open>\uXXXX\<close> above \<^verbatim>\<open>00ff\<close> has
  no \<^typ>\<open>char\<close> and is refused.
\<close>

definition is_ws :: "char \<Rightarrow> bool" where
  "is_ws c = (c = CHR '' '' \<or> c = CHR 0x09 \<or> c = CHR 0x0A \<or> c = CHR 0x0D)"

definition skip_ws :: "string \<Rightarrow> string" where
  "skip_ws s = dropWhile is_ws s"

definition is_digit :: "char \<Rightarrow> bool" where
  "is_digit c = (48 \<le> (of_char c :: nat) \<and> (of_char c :: nat) \<le> 57)"

definition digit_val :: "char \<Rightarrow> nat" where
  "digit_val c = of_char c - 48"

definition digits_val :: "string \<Rightarrow> nat" where
  "digits_val ds = foldl (\<lambda>a c. 10 * a + digit_val c) 0 ds"

definition hex_val :: "char \<Rightarrow> nat option" where
  "hex_val c =
     (let n = (of_char c :: nat)
      in if 48 \<le> n \<and> n \<le> 57 then Some (n - 48)
         else if 97 \<le> n \<and> n \<le> 102 then Some (n - 87)
         else if 65 \<le> n \<and> n \<le> 70 then Some (n - 55)
         else None)"

definition code_unit :: "nat \<Rightarrow> char" where
  "code_unit n = Char (odd n) (odd (n div 2)) (odd (n div 4)) (odd (n div 8))
                      (odd (n div 16)) (odd (n div 32)) (odd (n div 64)) (odd (n div 128))"

definition hex4 :: "string \<Rightarrow> char option" where
  "hex4 s =
     (case map hex_val s of
        [Some a, Some b, Some c, Some d] \<Rightarrow>
          if a = 0 \<and> b = 0 then Some (code_unit (16 * c + d)) else None
      | _ \<Rightarrow> None)"

definition unescape :: "char \<Rightarrow> char option" where
  "unescape e =
     (if e = CHR 0x22 then Some (CHR 0x22)
      else if e = CHR 0x5C then Some (CHR 0x5C)
      else if e = CHR ''/'' then Some (CHR ''/'')
      else if e = CHR ''b'' then Some (CHR 0x08)
      else if e = CHR ''f'' then Some (CHR 0x0C)
      else if e = CHR ''n'' then Some (CHR 0x0A)
      else if e = CHR ''r'' then Some (CHR 0x0D)
      else if e = CHR ''t'' then Some (CHR 0x09)
      else None)"

text \<open>The characters of a string after its opening quote, up to the closing one.\<close>

function parse_chars :: "string \<Rightarrow> (string \<times> string) option" where
  "parse_chars [] = None"
| "parse_chars (c # cs) =
     (if c = CHR 0x22 then Some ([], cs)
      else if c = CHR 0x5C then
        (case cs of
           [] \<Rightarrow> None
         | e # rest \<Rightarrow>
             if e = CHR ''u'' then
               (case hex4 (take 4 rest) of
                  None \<Rightarrow> None
                | Some x \<Rightarrow> map_option (\<lambda>(s, r). (x # s, r)) (parse_chars (drop 4 rest)))
             else
               (case unescape e of
                  None \<Rightarrow> None
                | Some x \<Rightarrow> map_option (\<lambda>(s, r). (x # s, r)) (parse_chars rest)))
      else if (of_char c :: nat) < 32 then None
      else map_option (\<lambda>(s, r). (c # s, r)) (parse_chars cs))"
  by pat_completeness auto
termination
  by (relation "measure length") auto

function norm_dec :: "int \<Rightarrow> int \<Rightarrow> int \<times> int" where
  "norm_dec m e =
     (if m = 0 then (0, 0)
      else if m mod 10 = 0 then norm_dec (m div 10) (e + 1)
      else (m, e))"
  by pat_completeness auto
termination
  by (relation "measure (\<lambda>(m, e). nat \<bar>m\<bar>)") auto

declare norm_dec.simps [simp del]

text \<open>
  A number: an optional minus sign, the integer digits (no leading zero before another
  digit), an optional fraction and an optional exponent.
\<close>

definition read_sign :: "string \<Rightarrow> bool \<times> string" where
  "read_sign s = (case s of [] \<Rightarrow> (False, s) | c # cs \<Rightarrow> if c = CHR ''-'' then (True, cs) else (False, s))"

definition read_digits :: "string \<Rightarrow> string \<times> string" where
  "read_digits s = (takeWhile is_digit s, dropWhile is_digit s)"

definition read_fraction :: "string \<Rightarrow> (string \<times> string) option" where
  "read_fraction s =
     (case s of
        [] \<Rightarrow> Some ([], s)
      | c # cs \<Rightarrow>
          if c = CHR ''.'' then
            (case read_digits cs of (fs, r) \<Rightarrow> if fs = [] then None else Some (fs, r))
          else Some ([], s))"

definition read_exponent :: "string \<Rightarrow> (int \<times> string) option" where
  "read_exponent s =
     (case s of
        [] \<Rightarrow> Some (0, s)
      | c # cs \<Rightarrow>
          if c = CHR ''e'' \<or> c = CHR ''E'' then
            (case cs of
               [] \<Rightarrow> None
             | d # cs' \<Rightarrow>
                 (case read_digits (if d = CHR ''-'' \<or> d = CHR ''+'' then cs' else cs) of
                    (es, r) \<Rightarrow>
                      if es = [] then None
                      else Some (if d = CHR ''-'' then - int (digits_val es) else int (digits_val es), r)))
          else Some (0, s))"

definition parse_number :: "string \<Rightarrow> (jsval \<times> string) option" where
  "parse_number s =
     (case read_sign s of
        (neg, s1) \<Rightarrow>
          (case read_digits s1 of
             (ds, s2) \<Rightarrow>
               if ds = [] \<or> (1 < length ds \<and> hd ds = CHR ''0'') then None
               else
                 (case read_fraction s2 of
                    None \<Rightarrow> None
                  | Some (fs, s3) \<Rightarrow>
                      (case read_exponent s3 of
                         None \<Rightarrow> None
                       | Some (x, s4) \<Rightarrow>
                           (case norm_dec (if neg then - int (digits_val (ds @ fs))
                                           else int (digits_val (ds @ fs)))
                                          (x - int (length fs)) of
                              (m, e) \<Rightarrow> Some (JNum m e, s4))))))"

definition expect :: "string \<Rightarrow> jsval \<Rightarrow> string \<Rightarrow> (jsval \<times> string) option" where
  "expect lit v s = (if take (length lit) s = lit then Some (v, drop (length lit) s) else None)"

definition obj_get :: "(string \<times> jsval) list \<Rightarrow> string \<Rightarrow> jsval" where
  "obj_get ms k = (case map_of ms k of None \<Rightarrow> JUndefined | Some v \<Rightarrow> v)"

definition obj_define :: "(string \<times> jsval) list \<Rightarrow> string \<Rightarrow> jsval \<Rightarrow> (string \<times> jsval) list" where
  "obj_define ms k v =
     (if list_ex (\<lambda>kv. fst kv = k) ms
      then map (\<lambda>kv. if fst kv = k then (k, v) else kv) ms
      else ms @ [(k, v)])"

definition obj_of_members :: "(string \<times> jsval) list \<Rightarrow> jsval" where
  "obj_of_members ms = JObj (foldl (\<lambda>acc kv. obj_define acc (fst kv) (snd kv)) [] ms)"

text \<open>
  The first argument bounds the number of nested calls. A value needs at most twice the
  length of its text, so \<open>JSON_parse\<close> starts with \<open>2 * length s + 2\<close>.
\<close>

fun parse_value :: "nat \<Rightarrow> string \<Rightarrow> (jsval \<times> string) option"
  and parse_elements :: "nat \<Rightarrow> string \<Rightarrow> (jsval list \<times> string) option"
  and parse_members :: "nat \<Rightarrow> string \<Rightarrow> ((string \<times> jsval) list \<times> string) option"
where
  "parse_value 0 s = None"
| "parse_value (Suc n) s =
     (case skip_ws s of
        [] \<Rightarrow> None
      | c # cs \<Rightarrow>
          if c = CHR ''n'' then expect ''ull'' JNull cs
          else if c = CHR ''t'' then expect ''rue'' (JBool True) cs
          else if c = CHR ''f'' then expect ''alse'' (JBool False) cs
          else if c = CHR 0x22 then map_option (\<lambda>(x, r). (JStr x, r)) (parse_chars cs)
          else if c = CHR ''['' then
            (case skip_ws cs of
               [] \<Rightarrow> None
             | d # r \<Rightarrow>
                 if d = CHR '']'' then Some (JArr [], r)
                 else map_option (\<lambda>(xs, r'). (JArr xs, r')) (parse_elements n cs))
          else if c = CHR ''{'' then
            (case skip_ws cs of
               [] \<Rightarrow> None
             | d # r \<Rightarrow>
                 if d = CHR ''}'' then Some (JObj [], r)
                 else map_option (\<lambda>(ms, r'). (obj_of_members ms, r')) (parse_members n cs))
          else parse_number (c # cs))"
| "parse_elements 0 s = None"
| "parse_elements (Suc n) s =
     (case parse_value n s of
        None \<Rightarrow> None
      | Some (x, r) \<Rightarrow>
          (case skip_ws r of
             [] \<Rightarrow> None
           | d # r' \<Rightarrow>
               if d = CHR '','' then map_option (\<lambda>(xs, r''). (x # xs, r'')) (parse_elements n r')
               else if d = CHR '']'' then Some ([x], r')
               else None))"
| "parse_members 0 s = None"
| "parse_members (Suc n) s =
     (case skip_ws s of
        [] \<Rightarrow> None
      | q # s1 \<Rightarrow>
          if q \<noteq> CHR 0x22 then None
          else
            (case parse_chars s1 of
               None \<Rightarrow> None
             | Some (k, s2) \<Rightarrow>
                 (case skip_ws s2 of
                    [] \<Rightarrow> None
                  | col # s3 \<Rightarrow>
                      if col \<noteq> CHR '':'' then None
                      else
                        (case parse_value n s3 of
                           None \<Rightarrow> None
                         | Some (v, s4) \<Rightarrow>
                             (case skip_ws s4 of
                                [] \<Rightarrow> None
                              | d # s5 \<Rightarrow>
                                  if d = CHR '','' then
                                    map_option (\<lambda>(ms, r). ((k, v) # ms, r)) (parse_members n s5)
                                  else if d = CHR ''}'' then Some ([(k, v)], s5)
                                  else None)))))"

text \<open>\<^verbatim>\<open>JSON.parse\<close>: \<open>None\<close> stands for the \<^verbatim>\<open>SyntaxError\<close> it throws.\<close>

definition JSON_parse :: "string \<Rightarrow> jsval option" where
  "JSON_parse s =
     (case parse_value (2 * length s + 2) s of
        None \<Rightarrow> None
      | Some (v, r) \<Rightarrow> if skip_ws r = [] then Some v else None)"

section \<open>The cache: \<^verbatim>\<open>createCache\<close>\<close>

subsection \<open>The \<^verbatim>\<open>Map\<close> behind it\<close>

text \<open>
  A \<^verbatim>\<open>Map\<close> is its list of entries in insertion order. Keys are compared with
  \<^verbatim>\<open>SameValueZero\<close>: primitives by value, objects by identity. An array or object key can
  only come from \<^verbatim>\<open>JSON.parse\<close> inside \<^verbatim>\<open>initialize\<close>, which creates it fresh and keeps
  no other reference to it, so such a key is equal to no key ever looked up or added.
\<close>

type_synonym store = "(jsval \<times> jsval) list"

fun is_object :: "jsval \<Rightarrow> bool" where
  "is_object (JArr xs) = True"
| "is_object (JObj ms) = True"
| "is_object v = False"

definition same_value_zero :: "jsval \<Rightarrow> jsval \<Rightarrow> bool" where
  "same_value_zero a b = (\<not> is_object a \<and> a = b)"

definition map_has :: "store \<Rightarrow> jsval \<Rightarrow> bool" where
  "map_has m k = list_ex (\<lambda>kv. same_value_zero (fst kv) k) m"

definition map_get :: "store \<Rightarrow> jsval \<Rightarrow> jsval" where
  "map_get m k =
     (case find (\<lambda>kv. same_value_zero (fst kv) k) m of
        None \<Rightarrow> JUndefined
      | Some kv \<Rightarrow> snd kv)"

definition map_set :: "store \<Rightarrow> jsval \<Rightarrow> jsval \<Rightarrow> store" where
  "map_set m k v =
     (if map_has m k
      then map (\<lambda>kv. if same_value_zero (fst kv) k then (fst kv, v) else kv) m
      else m @ [(k, v)])"

text \<open>
  \<^verbatim>\<open>new Map(iterable)\<close>: \<^verbatim>\<open>undefined\<close> and \<^verbatim>\<open>null\<close> give the empty map; an array is
  read item by item, each item must be an object and its properties \<^verbatim>\<open>0\<close> and \<^verbatim>\<open>1\<close> are
  the key and the value; a string iterates over its characters, which are not objects;
  numbers, booleans and plain objects are not iterable.
\<close>

definition entry_of :: "jsval \<Rightarrow> (jsval \<times> jsval) option" where
  "entry_of item =
     (case item of
        JArr xs \<Rightarrow> Some (if 0 < length xs then xs ! 0 else JUndefined,
                          if 1 < length xs then xs ! 1 else JUndefined)
      | JObj ms \<Rightarrow> Some (obj_get ms ''0'', obj_get ms ''1'')
      | _ \<Rightarrow> None)"

fun add_entries :: "store \<Rightarrow> jsval list \<Rightarrow> js_error + store" where
  "add_entries m [] = Inr m"
| "add_entries m (item # items) =
     (case entry_of item of
        None \<Rightarrow> Inl TypeError
      | Some (k, v) \<Rightarrow> add_entries (map_set m k v) items)"

definition new_Map :: "jsval \<Rightarrow> js_error + store" where
  "new_Map iterable =
     (case iterable of
        JUndefined \<Rightarrow> Inr []
      | JNull \<Rightarrow> Inr []
      | JArr items \<Rightarrow> add_entries [] items
      | JStr s \<Rightarrow> if s = [] then Inr [] else Inl TypeError
      | _ \<Rightarrow> Inl TypeError)"

subsection \<open>The methods of the cache object\<close>

text \<open>
  \<^verbatim>\<open>
  get(key: string) { return cache.get(key); },
  has(key: string) { return cache.has(key); },
  set(key: string, value: any) { cache.set(key, value); },
  clear() { cache.clear(); },
  serialize() { return JSON.stringify(Array.from(cache.entries())); },
  initialize(serializedCache: string) { cache = new Map(JSON.parse(serializedCache)); },
  \<close>
  Each method takes the current \<^verbatim>\<open>Map\<close> and, where it changes it, returns the new one.
  \<open>initialize\<close> returns the map after the call and the exception thrown, if any: the
  assignment to \<^verbatim>\<open>cache\<close> happens only after \<^verbatim>\<open>JSON.parse\<close> and \<^verbatim>\<open>new Map\<close> have
  returned.
\<close>

definition get :: "store \<Rightarrow> string \<Rightarrow> jsval" where
  "get cache key = map_get cache (JStr key)"

definition has :: "store \<Rightarrow> string \<Rightarrow> bool" where
  "has cache key = map_has cache (JStr key)"

definition set_entry :: "store \<Rightarrow> string \<Rightarrow> jsval \<Rightarrow> store" where
  "set_entry cache key v = map_set cache (JStr key) v"

definition clear :: "store \<Rightarrow> store" where
  "clear cache = []"

definition entries :: "store \<Rightarrow> jsval" where
  "entries cache = JArr (map (\<lambda>kv. JArr [fst kv, snd kv]) cache)"

definition serialize :: "store \<Rightarrow> string" where
  "serialize cache = JSON_stringify (entries cache)"

definition initialize :: "store \<Rightarrow> string \<Rightarrow> store \<times> js_error option" where
  "initialize cache serializedCache =
     (case JSON_parse serializedCache of
        None \<Rightarrow> (cache, Some SyntaxError)
      | Some parsed \<Rightarrow>
          (case new_Map parsed of
             Inl e \<Rightarrow> (cache, Some e)
           | Inr m \<Rightarrow> (m, None)))"

section \<open>The fetch collaborator\<close>

text \<open>
  \<^verbatim>\<open>fetch(url)\<close> is outside the module. What it does is an argument of the model: either
  the promise rejects (a network failure, a \<^verbatim>\<open>TypeError\<close>), or it resolves to a response
  with a status and a body text. \<^verbatim>\<open>response.ok\<close> is true for the statuses 200 to 299 and
  \<^verbatim>\<open>response.json()\<close> parses the body.
\<close>

datatype fetch_outcome =
    NetworkFailure
  | HttpResponse nat string

definition response_ok :: "nat \<Rightarrow> bool" where
  "response_ok status = (200 \<le> status \<and> status \<le> 299)"

text \<open>
  Both \<^verbatim>\<open>useCachingFetch\<close> and \<^verbatim>\<open>preloadCachingFetch\<close> read the response the same way:
  \<^verbatim>\<open>
  if (!response.ok) {
    throw new Error(`HTTP error! status: ${response.status}`);
  }
  return response.json();
  \<close>
\<close>

definition read_response :: "fetch_outcome \<Rightarrow> js_error + jsval" where
  "read_response outcome =
     (case outcome of
        NetworkFailure \<Rightarrow> Inl TypeError
      | HttpResponse status body \<Rightarrow>
          if \<not> response_ok status then Inl (Error (''HTTP error! status: '' @ show_nat status))
          else
            (case JSON_parse body of
               None \<Rightarrow> Inl SyntaxError
             | Some d \<Rightarrow> Inr d))"

section \<open>The module state, \<^verbatim>\<open>useCachingFetch\<close> and \<^verbatim>\<open>preloadCachingFetch\<close>\<close>

text \<open>
  The state of a component that calls the hook is the object kept by \<^verbatim>\<open>React.useState\<close>.
\<close>

record view =
  isLoading :: bool
  data :: jsval
  error :: "js_error option"

definition initial_view :: view where
  "initial_view = \<lparr>isLoading = True, data = JNull, error = None\<rparr>"

text \<open>
  A fetch that has been started and has not settled belongs either to one run of the
  hook's effect (with the number of that run, whose \<^verbatim>\<open>isMounted\<close> variable its handlers
  read, and the component whose \<^verbatim>\<open>setState\<close> they call) or to a call of
  \<^verbatim>\<open>preloadCachingFetch\<close>.
\<close>

datatype waiter =
    Hook nat nat
  | Preload

text \<open>
  Everything the module and its callers share: the singleton \<^verbatim>\<open>cacheManager\<close>, the state
  of each component, the cleanup function React holds for each component (the effect run
  that returned it), the \<^verbatim>\<open>isMounted\<close> variable of each effect run, the fetches in
  flight, the log of calls of \<^verbatim>\<open>fetch\<close>, and the number of effect runs so far.
\<close>

record world =
  cacheManager :: store
  views :: "nat \<Rightarrow> view"
  cleanups :: "nat \<Rightarrow> nat option"
  isMounted :: "nat \<Rightarrow> bool"
  pending :: "(waiter \<times> string) list"
  network :: "string list"
  effects :: nat

definition init_world :: world where
  "init_world =
     \<lparr>cacheManager = [], views = (\<lambda>c. initial_view), cleanups = (\<lambda>c. None),
      isMounted = (\<lambda>e. False), pending = [], network = [], effects = 0\<rparr>"

text \<open>
  \<^verbatim>\<open>
  export const useCachingFetch: UseCachingFetch = (url) => {
    const [state, setState] = React.useState({ isLoading: true, data: null, error: null });
    React.useEffect(() => { ... }, [url]);
    return state;
  };
  \<close>
  A render of component \<open>c\<close> returns its state; a component that has not called
  \<^verbatim>\<open>setState\<close> yet has the initial one. The effect runs after the render.
\<close>

definition useCachingFetch :: "world \<Rightarrow> nat \<Rightarrow> view" where
  "useCachingFetch w c = views w c"

definition setState :: "world \<Rightarrow> nat \<Rightarrow> view \<Rightarrow> world" where
  "setState w c v = w\<lparr>views := (views w)(c := v)\<rparr>"

text \<open>
  The body of the effect:
  \<^verbatim>\<open>
  if (cacheManager.has(url)) {
    setState({ isLoading: false, data: cacheManager.get(url), error: null });
    return;
  }
  let isMounted = true;
  setState({ isLoading: true, data: null, error: null });
  fetch(url).then(...).then(...).catch(...);
  return () => { isMounted = false; };
  \<close>
\<close>

definition useCachingFetch_effect :: "world \<Rightarrow> nat \<Rightarrow> string \<Rightarrow> world" where
  "useCachingFetch_effect w c url =
     (if has (cacheManager w) url
      then (setState w c \<lparr>isLoading = False, data = get (cacheManager w) url, error = None\<rparr>)
             \<lparr>cleanups := (cleanups w)(c := None)\<rparr>
      else
        let e = effects w
        in (setState w c \<lparr>isLoading = True, data = JNull, error = None\<rparr>)
             \<lparr>isMounted := (isMounted w)(e := True),
              network := network w @ [url],
              pending := pending w @ [(Hook e c, url)],
              cleanups := (cleanups w)(c := Some e),
              effects := Suc e\<rparr>)"

text \<open>The cleanup React calls when the component unmounts or \<^verbatim>\<open>url\<close> changes.\<close>

definition useCachingFetch_cleanup :: "world \<Rightarrow> nat \<Rightarrow> world" where
  "useCachingFetch_cleanup w c =
     (case cleanups w c of
        None \<Rightarrow> w
      | Some e \<Rightarrow> w\<lparr>isMounted := (isMounted w)(e := False), cleanups := (cleanups w)(c := None)\<rparr>)"

text \<open>
  The handlers of the hook's promise chain, run when its fetch settles:
  \<^verbatim>\<open>
  .then((data) => {
    if (isMounted) {
      cacheManager.set(url, data);
      setState({ isLoading: false, data, error: null });
    }
  })
  .catch((error) => {
    if (isMounted) {
      setState({ isLoading: false, data: null, error });
    }
  });
  \<close>
\<close>

definition hook_settled :: "world \<Rightarrow> nat \<Rightarrow> nat \<Rightarrow> string \<Rightarrow> fetch_outcome \<Rightarrow> world" where
  "hook_settled w e c url outcome =
     (case read_response outcome of
        Inr d \<Rightarrow>
          if isMounted w e
          then setState (w\<lparr>cacheManager := set_entry (cacheManager w) url d\<rparr>) c
                 \<lparr>isLoading = False, data = d, error = None\<rparr>
          else w
      | Inl err \<Rightarrow>
          if isMounted w e
          then setState w c \<lparr>isLoading = False, data = JNull, error = Some err\<rparr>
          else w)"

text \<open>
  \<^verbatim>\<open>
  export const preloadCachingFetch = async (url: string): Promise<void> => {
    if (cacheManager.has(url)) return;
    const response = await fetch(url);
    if (!response.ok) {
      throw new Error(`HTTP error! status: ${response.status}`);
    }
    const data = await response.json();
    cacheManager.set(url, data);
  };
  \<close>
  The call either returns at once (\<open>True\<close>) or starts the fetch and waits (\<open>False\<close>); when
  the fetch settles the rest runs and the promise is fulfilled (\<open>None\<close>) or rejected with
  an error.
\<close>

definition preload_start :: "world \<Rightarrow> string \<Rightarrow> world \<times> bool" where
  "preload_start w url =
     (if has (cacheManager w) url then (w, True)
      else (w\<lparr>network := network w @ [url], pending := pending w @ [(Preload, url)]\<rparr>, False))"

definition preload_settled :: "world \<Rightarrow> string \<Rightarrow> fetch_outcome \<Rightarrow> world \<times> js_error option" where
  "preload_settled w url outcome =
     (case read_response outcome of
        Inl err \<Rightarrow> (w, Some err)
      | Inr d \<Rightarrow> (w\<lparr>cacheManager := set_entry (cacheManager w) url d\<rparr>, None))"

text \<open>The \<open>i\<close>-th fetch in flight settles: it leaves the list and its waiter continues.\<close>

definition settle :: "world \<Rightarrow> nat \<Rightarrow> fetch_outcome \<Rightarrow> world" where
  "settle w i outcome =
     (if length (pending w) \<le> i then w
      else
        let w' = w\<lparr>pending := take i (pending w) @ drop (Suc i) (pending w)\<rparr>
        in case pending w ! i of
             (Hook e c, url) \<Rightarrow> hook_settled w' e c url outcome
           | (Preload, url) \<Rightarrow> fst (preload_settled w' url outcome))"

text \<open>
  \<^verbatim>\<open>
  export const serializeCache = () => { return cacheManager.serialize(); };
  export const initializeCache = (serializedCache: string) => { cacheManager.initialize(serializedCache); };
  export const wipeCache = () => { cacheManager.clear(); };
  \<close>
\<close>

definition serializeCache :: "world \<Rightarrow> string" where
  "serializeCache w = serialize (cacheManager w)"

definition initializeCache :: "world \<Rightarrow> string \<Rightarrow> world \<times> js_error option" where
  "initializeCache w serializedCache =
     (let r = initialize (cacheManager w) serializedCache
      in (w\<lparr>cacheManager := fst r\<rparr>, snd r))"

definition wipeCache :: "world \<Rightarrow> world" where
  "wipeCache w = w\<lparr>cacheManager := clear (cacheManager w)\<rparr>"

subsection \<open>Runs\<close>

text \<open>
  What the callers of the module can do, one step at a time. \<open>Subscribe c url\<close> is React
  running the effect of component \<open>c\<close> for \<open>url\<close>, after the cleanup of its previous run if
  there is one; \<open>Dispose c\<close> is the cleanup alone.
\<close>

datatype action =
    Subscribe nat string
  | Dispose nat
  | Settle nat fetch_outcome
  | PreloadCall string
  | InitializeCall string
  | WipeCall

fun apply_action :: "world \<Rightarrow> action \<Rightarrow> world" where
  "apply_action w (Subscribe c url) = useCachingFetch_effect (useCachingFetch_cleanup w c) c url"
| "apply_action w (Dispose c) = useCachingFetch_cleanup w c"
| "apply_action w (Settle i outcome) = settle w i outcome"
| "apply_action w (PreloadCall url) = fst (preload_start w url)"
| "apply_action w (InitializeCall s) = fst (initializeCache w s)"
| "apply_action w WipeCall = wipeCache w"

definition run :: "world \<Rightarrow> action list \<Rightarrow> world" where
  "run w acts = foldl apply_action w acts"

section \<open>Notions used to state the properties\<close>

text \<open>
  The invariant of a \<^verbatim>\<open>Map\<close>: no two entries have the same primitive key. (Object keys
  are distinct objects even when they print alike.)
\<close>

definition store_inv :: "store \<Rightarrow> bool" where
  "store_inv m = distinct (filter (\<lambda>k. \<not> is_object k) (map fst m))"

text \<open>
  The JSON-representable values: no \<^verbatim>\<open>undefined\<close> anywhere, numbers normalised, object
  keys distinct.
\<close>

fun representable :: "jsval \<Rightarrow> bool" where
  "representable JUndefined = False"
| "representable JNull = True"
| "representable (JBool b) = True"
| "representable (JNum m e) = (if m = 0 then e = 0 else m mod 10 \<noteq> 0)"
| "representable (JStr s) = True"
| "representable (JArr xs) = list_all representable xs"
| "representable (JObj ms) = (distinct (map fst ms) \<and> list_all (\<lambda>kv. representable (snd kv)) ms)"

text \<open>
  Auxiliary notions for reading back what \<open>json_text\<close> wrote: what may follow a number,
  the first character of a value, and the text of one object member.
\<close>

definition number_end :: "string \<Rightarrow> bool" where
  "number_end r = (case r of [] \<Rightarrow> True
     | c # _ \<Rightarrow> \<not> is_digit c \<and> c \<noteq> CHR ''.'' \<and> c \<noteq> CHR ''e'' \<and> c \<noteq> CHR ''E'')"

definition value_start :: "char \<Rightarrow> bool" where
  "value_start c = (c = CHR ''n'' \<or> c = CHR ''t'' \<or> c = CHR ''f'' \<or> c = CHR 0x22 \<or>
     c = CHR ''['' \<or> c = CHR ''{'' \<or> c = CHR ''-'' \<or> is_digit c)"

definition member_text :: "string \<times> jsval \<Rightarrow> string" where
  "member_text kv = quote_string (fst kv) @ '':'' @ json_text (snd kv)"

text \<open>
  The specification's "validly encoded key/value pair-sequence": a JSON text of an array
  whose items are two-element arrays of a string key and a value. This predicate follows
  the specification; \<open>initialize\<close> does not contain such a check.
\<close>

fun pair_item :: "jsval \<Rightarrow> bool" where
  "pair_item (JArr [JStr k, v]) = True"
| "pair_item item = False"

definition valid_pair_sequence :: "string \<Rightarrow> bool" where
  "valid_pair_sequence s =
     (case JSON_parse s of
        Some (JArr items) \<Rightarrow> list_all pair_item items
      | _ \<Rightarrow> False)"

text \<open>
  Where the data a component shows comes from. A step delivers the value \<open>d\<close> to
  component \<open>c\<close> when it is the effect of \<open>c\<close> finding \<open>d\<close> in the cache, or the settlement
  of a fetch of a live effect run of \<open>c\<close> whose response decodes to \<open>d\<close>. A run has
  delivered \<open>d\<close> to \<open>c\<close> when one of its steps did.
\<close>

fun delivers :: "world \<Rightarrow> action \<Rightarrow> nat \<Rightarrow> jsval \<Rightarrow> bool" where
  "delivers w (Subscribe c' url) c d =
     (c' = c \<and> has (cacheManager w) url \<and> d = get (cacheManager w) url)"
| "delivers w (Settle i outcome) c d =
     (i < length (pending w) \<and>
      (case pending w ! i of
         (Hook e c', url) \<Rightarrow> c' = c \<and> isMounted w e \<and> read_response outcome = Inr d
       | (Preload, url) \<Rightarrow> False))"
| "delivers w a c d = False"

fun delivered :: "world \<Rightarrow> action list \<Rightarrow> nat \<Rightarrow> jsval \<Rightarrow> bool" where
  "delivered w [] c d = False"
| "delivered w (a # acts) c d = (delivers w a c d \<or> delivered (apply_action w a) acts c d)"

text \<open>
  The shape of a component's state: loading, or failed with an error and no data, or
  resolved with no error and data that was delivered.
\<close>

definition view_shape :: "view \<Rightarrow> bool \<Rightarrow> bool" where
  "view_shape v del =
     (isLoading v \<or> (error v \<noteq> None \<and> data v = JNull) \<or> (error v = None \<and> del))"

text \<open>The store of the specification's scenario, with a second entry.\<close>

definition people :: store where
  \<open>people = [(JStr ''/people'', JArr [JObj [(''id'', JNum 1 0), (''name'', JStr ''Ann'')]]),
             (JStr ''/n'', JNum (- 15) (- 1))]\<close>

section \<open>\<^verbatim>\<open>JSON.parse\<close> reads back what \<^verbatim>\<open>JSON.stringify\<close> writes\<close>

subsection \<open>Strings\<close>

lemma code_unit_of_char: "code_unit (of_char c) = c"
proof -
  have "code_unit n = char_of n" for n :: nat
    by (simp add: code_unit_def char_of_def bit_iff_odd_drop_bit drop_bit_eq_div)
  then show ?thesis by simp
qed

lemma hex_val_digit_char: "d < 16 \<Longrightarrow> hex_val (digit_char d) = Some d"
proof -
  assume "d < 16"
  then have "d \<in> {0, 1, 2, 3, 4, 5, 6, 7, 8, 9, 10, 11, 12, 13, 14, 15}"
    by (simp; arith)
  then show ?thesis
    by (auto simp: hex_val_def digit_char_def)
qed

lemma hex4_hex2:
  assumes "n < 32"
  shows "hex4 (CHR ''0'' # CHR ''0'' # hex2 n) = Some (code_unit n)"
proof -
  have a: "n div 16 < 16" "n mod 16 < 16" using assms by auto
  have z: "hex_val (CHR ''0'') = Some 0" by (simp add: hex_val_def)
  show ?thesis
    using hex_val_digit_char [OF a(1)] hex_val_digit_char [OF a(2)] z
    by (simp add: hex4_def hex2_def)
qed

lemma parse_chars_quote_char:
  assumes "parse_chars t = Some (s, r)"
  shows "parse_chars (quote_char c @ t) = Some (c # s, r)"
proof -
  consider (b) "c = CHR 0x08" | (t) "c = CHR 0x09" | (n) "c = CHR 0x0A" | (f) "c = CHR 0x0C"
    | (r) "c = CHR 0x0D" | (q) "c = CHR 0x22" | (s) "c = CHR 0x5C"
    | (u) "c \<noteq> CHR 0x08" "c \<noteq> CHR 0x09" "c \<noteq> CHR 0x0A" "c \<noteq> CHR 0x0C" "c \<noteq> CHR 0x0D"
          "c \<noteq> CHR 0x22" "c \<noteq> CHR 0x5C" "(of_char c :: nat) < 32"
    | (o) "c \<noteq> CHR 0x08" "c \<noteq> CHR 0x09" "c \<noteq> CHR 0x0A" "c \<noteq> CHR 0x0C" "c \<noteq> CHR 0x0D"
          "c \<noteq> CHR 0x22" "c \<noteq> CHR 0x5C" "\<not> (of_char c :: nat) < 32"
    by blast
  then show ?thesis
  proof cases
    case u
    have "hex4 (take 4 (CHR ''0'' # CHR ''0'' # hex2 (of_char c) @ t)) = Some c"
      using hex4_hex2 [OF u(8)] by (simp add: hex2_def code_unit_of_char)
    moreover have "drop 4 (CHR ''0'' # CHR ''0'' # hex2 (of_char c) @ t) = t"
      by (simp add: hex2_def)
    ultimately show ?thesis
      using u assms by (simp add: quote_char_def)
  qed (simp_all add: quote_char_def unescape_def assms)
qed

lemma parse_chars_quoted:
  "parse_chars (concat (map quote_char s) @ CHR 0x22 # rest) = Some (s, rest)"
  by (induction s) (simp_all add: parse_chars_quote_char)

subsection \<open>Digits\<close>

lemma digit_char_digit: "d < 10 \<Longrightarrow> is_digit (digit_char d) \<and> digit_val (digit_char d) = d"
proof -
  assume "d < 10"
  then have "d \<in> {0, 1, 2, 3, 4, 5, 6, 7, 8, 9}"
    by (simp; arith)
  then show ?thesis
    by (auto simp: is_digit_def digit_val_def digit_char_def)
qed

lemma digit_char_zero: "d < 10 \<Longrightarrow> (digit_char d = CHR ''0'') = (d = 0)"
proof -
  assume "d < 10"
  then have "d \<in> {0, 1, 2, 3, 4, 5, 6, 7, 8, 9}"
    by (simp; arith)
  then show ?thesis
    by (auto simp: digit_char_def)
qed

lemma show_nat_digits: "list_all is_digit (show_nat n)"
proof (induction n rule: show_nat.induct)
  case (1 n)
  show ?case
  proof (cases "n < 10")
    case True
    then show ?thesis by (simp add: show_nat.simps [of n] digit_char_digit)
  next
    case False
    then show ?thesis using 1 by (simp add: show_nat.simps [of n] digit_char_digit)
  qed
qed

lemma show_nat_nonempty: "show_nat n \<noteq> []"
  by (simp add: show_nat.simps [of n])

lemma digits_val_snoc: "digits_val (xs @ [c]) = 10 * digits_val xs + digit_val c"
  by (simp add: digits_val_def)

lemma digits_val_show_nat: "digits_val (show_nat n) = n"
proof (induction n rule: show_nat.induct)
  case (1 n)
  show ?case
  proof (cases "n < 10")
    case True
    then show ?thesis
      using digits_val_snoc [of "[]" "digit_char n"]
      by (simp add: show_nat.simps [of n] digit_char_digit digits_val_def)
  next
    case False
    then show ?thesis using 1 by (simp add: show_nat.simps [of n] digits_val_snoc digit_char_digit)
  qed
qed

lemma hd_show_nat: "0 < n \<Longrightarrow> hd (show_nat n) \<noteq> CHR ''0''"
proof (induction n rule: show_nat.induct)
  case (1 n)
  show ?case
  proof (cases "n < 10")
    case True
    then show ?thesis using "1.prems" by (simp add: show_nat.simps [of n] digit_char_zero)
  next
    case False
    then have "0 < n div 10" by simp
    then show ?thesis
      using False 1 by (simp add: show_nat.simps [of n] show_nat_nonempty)
  qed
qed

lemma digits_val_append:
  "digits_val (a @ b) = digits_val a * 10 ^ length b + digits_val b"
proof (induction b rule: rev_induct)
  case Nil
  then show ?case by (simp add: digits_val_def)
next
  case (snoc c b)
  have "digits_val (a @ b @ [c]) = 10 * digits_val (a @ b) + digit_val c"
    using digits_val_snoc [of "a @ b" c] by simp
  then show ?case
    using snoc by (simp add: digits_val_snoc algebra_simps)
qed

lemma digits_val_zeros: "digits_val (replicate j (CHR ''0'')) = 0"
proof (induction j)
  case 0
  then show ?case by (simp add: digits_val_def)
next
  case (Suc j)
  have "digits_val [CHR ''0''] = 0"
    by (simp add: digits_val_def digit_val_def)
  then show ?case
    using Suc digits_val_append [of "[CHR ''0'']" "replicate j (CHR ''0'')"] by simp
qed

lemma norm_dec_id: "m \<noteq> 0 \<Longrightarrow> m mod 10 \<noteq> 0 \<Longrightarrow> norm_dec m e = (m, e)"
  by (simp add: norm_dec.simps [of m e])

lemma norm_dec_pow: "m \<noteq> 0 \<Longrightarrow> norm_dec (m * 10 ^ j) e = norm_dec m (e + int j)"
proof (induction j arbitrary: e)
  case 0
  then show ?case by simp
next
  case (Suc j)
  have "norm_dec (m * 10 ^ j * 10) e = norm_dec (m * 10 ^ j) (e + 1)"
    using Suc.prems by (subst norm_dec.simps) simp
  moreover have "m * 10 ^ Suc j = m * 10 ^ j * 10"
    by simp
  ultimately have "norm_dec (m * 10 ^ Suc j) e = norm_dec (m * 10 ^ j) (e + 1)"
    by (simp only:)
  then show ?case
    using Suc by (simp add: algebra_simps)
qed

subsection \<open>Numbers\<close>

lemma not_digit_chars:
  "\<not> is_digit (CHR ''.'')" "\<not> is_digit (CHR ''e'')" "\<not> is_digit (CHR ''-'')" "\<not> is_digit (CHR ''+'')"
  by (simp_all add: is_digit_def)

lemma read_digits_span:
  "list_all is_digit ds \<Longrightarrow> (case r of [] \<Rightarrow> True | c # _ \<Rightarrow> \<not> is_digit c) \<Longrightarrow>
   read_digits (ds @ r) = (ds, r)"
  unfolding read_digits_def
  by (induction ds) (auto split: list.splits)

lemma number_end_not_digit: "number_end r \<Longrightarrow> (case r of [] \<Rightarrow> True | c # _ \<Rightarrow> \<not> is_digit c)"
  by (simp add: number_end_def split: list.splits)

lemma read_sign_digits:
  "ds \<noteq> [] \<Longrightarrow> list_all is_digit ds \<Longrightarrow>
   read_sign ((if neg then ''-'' else []) @ ds @ r) = (neg, ds @ r)"
  using not_digit_chars(3)
  by (cases ds) (auto simp: read_sign_def)

lemma read_sign_minus: "read_sign (CHR ''-'' # s) = (True, s)"
  by (simp add: read_sign_def)

lemma read_sign_plain:
  "ds \<noteq> [] \<Longrightarrow> list_all is_digit ds \<Longrightarrow> read_sign (ds @ r) = (False, ds @ r)"
  using read_sign_digits [of ds False r] by simp

lemma read_fraction_none: "number_end r \<Longrightarrow> read_fraction r = Some ([], r)"
  by (auto simp: read_fraction_def number_end_def split: list.splits)

lemma read_fraction_some:
  "fs \<noteq> [] \<Longrightarrow> list_all is_digit fs \<Longrightarrow> (case r of [] \<Rightarrow> True | c # _ \<Rightarrow> \<not> is_digit c) \<Longrightarrow>
   read_fraction (CHR ''.'' # fs @ r) = Some (fs, r)"
  by (simp add: read_fraction_def read_digits_span)

lemma read_fraction_before_exponent:
  "read_fraction (CHR ''e'' # r) = Some ([], CHR ''e'' # r)"
  by (simp add: read_fraction_def)

lemma read_exponent_none: "number_end r \<Longrightarrow> read_exponent r = Some (0, r)"
  by (auto simp: read_exponent_def number_end_def split: list.splits)

lemma read_exponent_some:
  "es \<noteq> [] \<Longrightarrow> list_all is_digit es \<Longrightarrow> number_end r \<Longrightarrow>
   read_exponent (CHR ''e'' # (if eneg then CHR ''-'' else CHR ''+'') # es @ r)
     = Some (if eneg then - int (digits_val es) else int (digits_val es), r)"
  by (simp add: read_exponent_def read_digits_span number_end_not_digit)

text \<open>The layouts \<open>show_number\<close> produces.\<close>

lemma parse_number_plain:
  assumes "ds \<noteq> []" "list_all is_digit ds" "1 < length ds \<longrightarrow> hd ds \<noteq> CHR ''0''" "number_end r"
    and "norm_dec (if neg then - int (digits_val ds) else int (digits_val ds)) 0 = (m, e)"
  shows "parse_number ((if neg then ''-'' else []) @ ds @ r) = Some (JNum m e, r)"
  using assms
  by (cases neg) (simp_all add: parse_number_def read_sign_minus read_sign_plain read_digits_span
      number_end_not_digit read_fraction_none read_exponent_none)

lemma parse_number_point:
  assumes "ds \<noteq> []" "list_all is_digit ds" "1 < length ds \<longrightarrow> hd ds \<noteq> CHR ''0''" "number_end r"
    and "fs \<noteq> []" "list_all is_digit fs"
    and "norm_dec (if neg then - int (digits_val (ds @ fs)) else int (digits_val (ds @ fs)))
           (- int (length fs)) = (m, e)"
  shows "parse_number ((if neg then ''-'' else []) @ ds @ CHR ''.'' # fs @ r) = Some (JNum m e, r)"
proof -
  have a: "read_digits (ds @ CHR ''.'' # fs @ r) = (ds, CHR ''.'' # fs @ r)"
    using assms(2) not_digit_chars(1) by (simp add: read_digits_span)
  show ?thesis
    using assms a
    by (cases neg) (simp_all add: parse_number_def read_sign_minus read_sign_plain
      number_end_not_digit read_fraction_some read_exponent_none)
qed

lemma parse_number_exp:
  assumes "ds \<noteq> []" "list_all is_digit ds" "1 < length ds \<longrightarrow> hd ds \<noteq> CHR ''0''" "number_end r"
    and "es \<noteq> []" "list_all is_digit es"
    and "norm_dec (if neg then - int (digits_val ds) else int (digits_val ds))
           (if eneg then - int (digits_val es) else int (digits_val es)) = (m, e)"
  shows "parse_number ((if neg then ''-'' else []) @ ds @ CHR ''e'' #
           (if eneg then CHR ''-'' else CHR ''+'') # es @ r) = Some (JNum m e, r)"
proof -
  let ?t = "CHR ''e'' # (if eneg then CHR ''-'' else CHR ''+'') # es @ r"
  have a: "read_digits (ds @ ?t) = (ds, ?t)"
    using assms(2) not_digit_chars(2) by (simp add: read_digits_span)
  have b: "read_fraction ?t = Some ([], ?t)"
    by (rule read_fraction_before_exponent)
  have c: "read_exponent ?t = Some (if eneg then - int (digits_val es) else int (digits_val es), r)"
    by (rule read_exponent_some) (use assms in simp_all)
  have d: "read_sign ((if neg then ''-'' else []) @ ds @ ?t) = (neg, ds @ ?t)"
    by (rule read_sign_digits) (use assms in simp_all)
  show ?thesis
    unfolding parse_number_def d using assms(1,3,7) by (cases neg) (simp_all add: a b c del: append.simps)
qed

lemma parse_number_point_exp:
  assumes "ds \<noteq> []" "list_all is_digit ds" "1 < length ds \<longrightarrow> hd ds \<noteq> CHR ''0''" "number_end r"
    and "fs \<noteq> []" "list_all is_digit fs"
    and "es \<noteq> []" "list_all is_digit es"
    and "norm_dec (if neg then - int (digits_val (ds @ fs)) else int (digits_val (ds @ fs)))
           ((if eneg then - int (digits_val es) else int (digits_val es)) - int (length fs)) = (m, e)"
  shows "parse_number ((if neg then ''-'' else []) @ ds @ CHR ''.'' # fs @ CHR ''e'' #
           (if eneg then CHR ''-'' else CHR ''+'') # es @ r) = Some (JNum m e, r)"
proof -
  let ?t = "CHR ''e'' # (if eneg then CHR ''-'' else CHR ''+'') # es @ r"
  have a: "read_digits (ds @ CHR ''.'' # fs @ ?t) = (ds, CHR ''.'' # fs @ ?t)"
    using assms(2) not_digit_chars(1) by (simp add: read_digits_span)
  have b: "read_fraction (CHR ''.'' # fs @ ?t) = Some (fs, ?t)"
    using assms(5,6) not_digit_chars(2) by (simp add: read_fraction_some)
  have c: "read_exponent ?t = Some (if eneg then - int (digits_val es) else int (digits_val es), r)"
    by (rule read_exponent_some) (use assms in simp_all)
  have d: "read_sign ((if neg then ''-'' else []) @ ds @ CHR ''.'' # fs @ ?t)
             = (neg, ds @ CHR ''.'' # fs @ ?t)"
    by (rule read_sign_digits) (use assms in simp_all)
  show ?thesis
    unfolding parse_number_def d using assms(1,3,9) by (cases neg) (simp_all add: a b c del: append.simps)
qed

lemma list_all_take: "list_all P xs \<Longrightarrow> list_all P (take n xs)"
  by (auto simp: list_all_iff dest: in_set_takeD)

lemma list_all_drop: "list_all P xs \<Longrightarrow> list_all P (drop n xs)"
  by (auto simp: list_all_iff dest: in_set_dropD)

lemma zeros_digits: "list_all is_digit (replicate j (CHR ''0''))"
  by (simp add: list_all_iff is_digit_def)

lemma parse_show_number:
  assumes rep: "if m = 0 then e = 0 else m mod 10 \<noteq> 0" and r: "number_end r"
  shows "parse_number (show_number m e @ r) = Some (JNum m e, r)"
proof (cases "m = 0")
  case True
  have "parse_number ((if False then ''-'' else []) @ ''0'' @ r) = Some (JNum 0 0, r)"
    by (rule parse_number_plain)
       (simp_all add: r is_digit_def digits_val_def digit_val_def norm_dec.simps [of 0 0])
  then show ?thesis
    using True rep by (simp add: show_number_def)
next
  case False
  define s where "s = show_nat (nat \<bar>m\<bar>)"
  define k where "k = int (length s)"
  define n where "n = k + e"
  define neg where "neg = (m < 0)"
  define sg where "sg = (if neg then ''-'' else [])"
  have m10: "m mod 10 \<noteq> 0" using rep False by simp
  have s_digits: "list_all is_digit s" and s_ne: "s \<noteq> []"
    by (simp_all add: s_def show_nat_digits show_nat_nonempty)
  define a where "a = int (digits_val s)"
  have a_neg: "neg \<Longrightarrow> a = - m" and a_pos: "\<not> neg \<Longrightarrow> a = m"
    by (simp_all add: a_def s_def digits_val_show_nat neg_def)
  have s_hd: "hd s \<noteq> CHR ''0''"
    using False by (simp add: s_def hd_show_nat)
  have k_pos: "0 < k" using s_ne by (simp add: k_def)
  have nm: "norm_dec m x = (m, x)" for x
    using False m10 by (rule norm_dec_id)
  have sn: "show_number m e =
     (if k \<le> n \<and> n \<le> 21 then sg @ s @ replicate (nat (n - k)) (CHR ''0'')
      else if 0 < n \<and> n \<le> 21 then sg @ take (nat n) s @ ''.'' @ drop (nat n) s
      else if - 6 < n \<and> n \<le> 0 then sg @ ''0.'' @ replicate (nat (- n)) (CHR ''0'') @ s
      else if k = 1
        then sg @ s @ ''e'' @ (if n - 1 < 0 then ''-'' else ''+'') @ show_nat (nat \<bar>n - 1\<bar>)
        else sg @ take 1 s @ ''.'' @ drop 1 s @ ''e'' @ (if n - 1 < 0 then ''-'' else ''+'')
               @ show_nat (nat \<bar>n - 1\<bar>))"
    using False unfolding show_number_def Let_def s_def k_def n_def neg_def sg_def
    by (simp only: if_False)
  consider (plain) "k \<le> n" "n \<le> 21"
    | (point) "\<not> (k \<le> n \<and> n \<le> 21)" "0 < n" "n \<le> 21"
    | (small) "\<not> (k \<le> n \<and> n \<le> 21)" "\<not> (0 < n \<and> n \<le> 21)" "- 6 < n" "n \<le> 0"
    | (expo) "\<not> (k \<le> n \<and> n \<le> 21)" "\<not> (0 < n \<and> n \<le> 21)" "\<not> (- 6 < n \<and> n \<le> 0)"
    by blast
  then show ?thesis
  proof cases
    case plain
    let ?ds = "s @ replicate (nat (n - k)) (CHR ''0'')"
    have e: "e = int (nat (n - k))" using plain by (simp add: n_def)
    have v: "int (digits_val ?ds) = a * 10 ^ nat (n - k)"
      by (simp add: digits_val_append digits_val_zeros a_def)
    have "(if neg then - int (digits_val ?ds) else int (digits_val ?ds)) = m * 10 ^ nat (n - k)"
      unfolding v using a_neg a_pos by (cases neg) simp_all
    then have "norm_dec (if neg then - int (digits_val ?ds) else int (digits_val ?ds)) 0
            = norm_dec (m * 10 ^ nat (n - k)) 0"
      by (simp only:)
    also have "\<dots> = (m, e)"
      using False e by (simp add: norm_dec_pow nm)
    finally have nd: "norm_dec (if neg then - int (digits_val ?ds) else int (digits_val ?ds)) 0 = (m, e)" .
    have "parse_number ((if neg then ''-'' else []) @ ?ds @ r) = Some (JNum m e, r)"
      by (rule parse_number_plain [OF _ _ _ r nd])
         (simp_all add: s_ne s_digits zeros_digits s_hd)
    moreover have "show_number m e = (if neg then ''-'' else []) @ ?ds"
      unfolding sn using plain by (simp add: sg_def)
    ultimately show ?thesis by simp
  next
    case point
    have nk: "n < k" using point by auto
    let ?ds = "take (nat n) s" and ?fs = "drop (nat n) s"
    have len: "nat n < length s" using nk point by (simp add: k_def)
    have ds_ne: "?ds \<noteq> []" using point s_ne by simp
    have fs_ne: "?fs \<noteq> []" using len by simp
    have hd_ds: "hd ?ds \<noteq> CHR ''0''" using s_hd point by (simp add: hd_take)
    have e: "e = - int (length ?fs)" using len point by (simp add: n_def k_def)
    have nd: "norm_dec (if neg then - int (digits_val (?ds @ ?fs)) else int (digits_val (?ds @ ?fs)))
                (- int (length ?fs)) = (m, e)"
      unfolding append_take_drop_id a_def [symmetric]
      using a_neg a_pos nm e by (cases neg) simp_all
    have "parse_number ((if neg then ''-'' else []) @ ?ds @ CHR ''.'' # ?fs @ r) = Some (JNum m e, r)"
      by (rule parse_number_point [OF ds_ne _ _ r fs_ne _ nd])
         (simp_all add: list_all_take list_all_drop s_digits hd_ds s_hd)
    moreover have "show_number m e = (if neg then ''-'' else []) @ ?ds @ CHR ''.'' # ?fs"
      unfolding sn using point by (simp add: sg_def)
    ultimately show ?thesis by simp
  next
    case small
    let ?fs = "replicate (nat (- n)) (CHR ''0'') @ s"
    have e: "e = - int (length ?fs)" using small by (simp add: n_def k_def)
    have "digits_val (''0'' @ ?fs) = digits_val (replicate (Suc (nat (- n))) (CHR ''0'') @ s)"
      by simp
    also have "\<dots> = digits_val s"
      unfolding digits_val_append [of "replicate (Suc (nat (- n))) (CHR ''0'')" s]
      by (simp only: digits_val_zeros)
    finally have v: "int (digits_val (''0'' @ ?fs)) = a"
      by (simp only: a_def)
    have nd: "norm_dec (if neg then - int (digits_val (''0'' @ ?fs)) else int (digits_val (''0'' @ ?fs)))
                (- int (length ?fs)) = (m, e)"
      unfolding v using a_neg a_pos nm e by (cases neg) simp_all
    have "parse_number ((if neg then ''-'' else []) @ ''0'' @ CHR ''.'' # ?fs @ r) = Some (JNum m e, r)"
      by (rule parse_number_point [OF _ _ _ r _ _ nd])
         (simp_all add: s_ne s_digits zeros_digits is_digit_def)
    moreover have "show_number m e = (if neg then ''-'' else []) @ ''0'' @ CHR ''.'' # ?fs"
      unfolding sn using small by (simp add: sg_def)
    ultimately show ?thesis by simp
  next
    case expo
    define eneg where "eneg = (n - 1 < 0)"
    define es where "es = show_nat (nat \<bar>n - 1\<bar>)"
    have es_digits: "list_all is_digit es" and es_ne: "es \<noteq> []"
      by (simp_all add: es_def show_nat_digits show_nat_nonempty)
    have es_val: "(if eneg then - int (digits_val es) else int (digits_val es)) = n - 1"
      by (simp add: es_def eneg_def digits_val_show_nat)
    show ?thesis
    proof (cases "k = 1")
      case True
      have e: "e = n - 1" using True by (simp add: n_def)
      have nd: "norm_dec (if neg then - int (digits_val s) else int (digits_val s))
                  (if eneg then - int (digits_val es) else int (digits_val es)) = (m, e)"
        unfolding es_val a_def [symmetric] using a_neg a_pos nm e by (cases neg) simp_all
      have "parse_number ((if neg then ''-'' else []) @ s @ CHR ''e'' #
              (if eneg then CHR ''-'' else CHR ''+'') # es @ r) = Some (JNum m e, r)"
        by (rule parse_number_exp [OF s_ne s_digits _ r es_ne es_digits nd])
           (use True in \<open>simp add: k_def\<close>)
      moreover have "show_number m e = (if neg then ''-'' else []) @ s @ CHR ''e'' #
              (if eneg then CHR ''-'' else CHR ''+'') # es"
        unfolding sn using expo True by (auto simp: sg_def es_def eneg_def)
      ultimately show ?thesis by simp
    next
      case k1: False
      let ?ds = "take 1 s" and ?fs = "drop 1 s"
      have len: "1 < length s" using k1 s_ne by (cases s) (auto simp: k_def)
      have ds_ne: "?ds \<noteq> []" using s_ne by simp
      have fs_ne: "?fs \<noteq> []" using len by simp
      have e: "e = (n - 1) - int (length ?fs)" using len by (simp add: n_def k_def)
      have nd: "norm_dec (if neg then - int (digits_val (?ds @ ?fs)) else int (digits_val (?ds @ ?fs)))
                  ((if eneg then - int (digits_val es) else int (digits_val es)) - int (length ?fs))
                  = (m, e)"
        unfolding es_val append_take_drop_id a_def [symmetric]
        using a_neg a_pos nm e by (cases neg) simp_all
      have "parse_number ((if neg then ''-'' else []) @ ?ds @ CHR ''.'' # ?fs @ CHR ''e'' #
              (if eneg then CHR ''-'' else CHR ''+'') # es @ r) = Some (JNum m e, r)"
        by (rule parse_number_point_exp [OF ds_ne _ _ r fs_ne _ es_ne es_digits nd])
           (simp_all add: list_all_take list_all_drop s_digits)
      moreover have "show_number m e = (if neg then ''-'' else []) @ ?ds @ CHR ''.'' # ?fs @ CHR ''e'' #
              (if eneg then CHR ''-'' else CHR ''+'') # es"
        unfolding sn using expo k1 by (auto simp: sg_def es_def eneg_def)
      ultimately show ?thesis by simp
    qed
  qed
qed

subsection \<open>Values\<close>

lemma skip_ws_id: "\<not> is_ws c \<Longrightarrow> skip_ws (c # cs) = c # cs"
  by (simp add: skip_ws_def)

lemma value_start_not_ws: "value_start c \<Longrightarrow> \<not> is_ws c"
  by (auto simp: value_start_def is_ws_def is_digit_def)

lemma value_start_not_close: "value_start c \<Longrightarrow> c \<noteq> CHR '']'' \<and> c \<noteq> CHR ''}''"
  by (auto simp: value_start_def is_digit_def)

lemma parse_number_start:
  assumes "parse_number t = Some x"
  shows "\<exists>c cs. t = c # cs \<and> (c = CHR ''-'' \<or> is_digit c)"
proof (cases t)
  case Nil
  then show ?thesis
    using assms by (simp add: parse_number_def read_sign_def read_digits_def)
next
  case (Cons c cs)
  show ?thesis
  proof (cases "c = CHR ''-'' \<or> is_digit c")
    case True
    then show ?thesis using Cons by simp
  next
    case False
    then have "parse_number t = None"
      by (simp add: Cons parse_number_def read_sign_def read_digits_def)
    then show ?thesis using assms by simp
  qed
qed

lemma show_number_start:
  assumes "if m = 0 then e = 0 else m mod 10 \<noteq> 0"
  shows "\<exists>c cs. show_number m e = c # cs \<and> (c = CHR ''-'' \<or> is_digit c)"
proof -
  have "parse_number (show_number m e @ []) = Some (JNum m e, [])"
    by (rule parse_show_number [OF assms]) (simp add: number_end_def)
  then show ?thesis
    using parse_number_start [of "show_number m e"] by simp
qed

lemma json_text_start:
  "representable v \<Longrightarrow> \<exists>c cs. json_text v = c # cs \<and> value_start c"
proof (cases v)
  case (JNum m e)
  assume "representable v"
  then obtain c cs where "show_number m e = c # cs" "c = CHR ''-'' \<or> is_digit c"
    using show_number_start [of m e] JNum by auto
  then show ?thesis
    using JNum by (auto simp: value_start_def)
qed (auto simp: value_start_def quote_string_def)

lemma parse_value_number:
  assumes "c = CHR ''-'' \<or> is_digit c"
  shows "parse_value (Suc n) (c # cs) = parse_number (c # cs)"
proof -
  have "\<not> is_ws c" "c \<noteq> CHR ''n''" "c \<noteq> CHR ''t''" "c \<noteq> CHR ''f''" "c \<noteq> CHR 0x22"
    "c \<noteq> CHR ''[''" "c \<noteq> CHR ''{''"
    using assms by (auto simp: is_ws_def is_digit_def)
  then show ?thesis
    by (simp add: skip_ws_id)
qed

lemma number_end_comma [simp]:
  "number_end (CHR '','' # s)" "number_end (CHR '']'' # s)" "number_end (CHR ''}'' # s)"
  "number_end []"
  by (simp_all add: number_end_def is_digit_def)

lemma obj_define_fresh: "k \<notin> fst ` set ms \<Longrightarrow> obj_define ms k v = ms @ [(k, v)]"
  by (auto simp: obj_define_def list_ex_iff)

lemma obj_members_distinct:
  "distinct (map fst (acc @ ms)) \<Longrightarrow>
   foldl (\<lambda>acc kv. obj_define acc (fst kv) (snd kv)) acc ms = acc @ ms"
proof (induction ms arbitrary: acc)
  case Nil
  then show ?case by simp
next
  case (Cons kv ms)
  have "obj_define acc (fst kv) (snd kv) = acc @ [kv]"
    using Cons.prems by (auto simp: obj_define_fresh)
  moreover have "distinct (map fst ((acc @ [kv]) @ ms))"
    using Cons.prems by simp
  ultimately show ?case
    using Cons.IH [of "acc @ [kv]"] by simp
qed

lemma obj_of_members_distinct: "distinct (map fst ms) \<Longrightarrow> obj_of_members ms = JObj ms"
  using obj_members_distinct [of "[]" ms] by (simp add: obj_of_members_def)

lemma length_join_cons:
  "ys \<noteq> [] \<Longrightarrow> length (join_comma (y # ys)) = length y + 1 + length (join_comma ys)"
  by (cases ys) simp_all

lemma join_cons: "ys \<noteq> [] \<Longrightarrow> join_comma (y # ys) = y @ CHR '','' # join_comma ys"
  by (cases ys) simp_all

lemma parse_elements_texts:
  assumes val: "\<And>x n r. x \<in> set xs \<Longrightarrow> representable x \<Longrightarrow> number_end r \<Longrightarrow>
                  2 * length (json_text x) \<le> n \<Longrightarrow> parse_value n (json_text x @ r) = Some (x, r)"
  shows "ys \<noteq> [] \<Longrightarrow> set ys \<subseteq> set xs \<Longrightarrow> list_all representable ys \<Longrightarrow>
         2 * length (join_comma (map json_text ys)) + 1 \<le> n \<Longrightarrow>
         parse_elements n (join_comma (map json_text ys) @ CHR '']'' # r) = Some (ys, r)"
proof (induction ys arbitrary: n)
  case Nil
  then show ?case by simp
next
  case (Cons y ys)
  obtain n' where n: "n = Suc n'"
    using Cons.prems(4) by (cases n) auto
  show ?case
  proof (cases "ys = []")
    case True
    have "parse_value n' (json_text y @ CHR '']'' # r) = Some (y, CHR '']'' # r)"
      using Cons.prems n True by (simp add: val)
    then show ?thesis
      using True n by (simp add: skip_ws_id is_ws_def)
  next
    case False
    let ?rest = "join_comma (map json_text ys) @ CHR '']'' # r"
    have len: "length (join_comma (map json_text (y # ys)))
                 = length (json_text y) + 1 + length (join_comma (map json_text ys))"
      using False by (simp add: length_join_cons)
    have layout: "join_comma (map json_text (y # ys)) @ CHR '']'' # r
                 = json_text y @ CHR '','' # ?rest"
      using False by (simp add: join_cons)
    have a: "parse_value n' (json_text y @ CHR '','' # ?rest) = Some (y, CHR '','' # ?rest)"
      using Cons.prems n len by (intro val) simp_all
    have b: "parse_elements n' ?rest = Some (ys, r)"
      using Cons.prems n len False by (intro Cons.IH) simp_all
    show ?thesis
      unfolding layout n using a b by (simp add: skip_ws_id is_ws_def)
  qed
qed

lemma parse_members_texts:
  assumes val: "\<And>kv n r. kv \<in> set ms \<Longrightarrow> representable (snd kv) \<Longrightarrow> number_end r \<Longrightarrow>
                  2 * length (json_text (snd kv)) \<le> n \<Longrightarrow>
                  parse_value n (json_text (snd kv) @ r) = Some (snd kv, r)"
  shows "ys \<noteq> [] \<Longrightarrow> set ys \<subseteq> set ms \<Longrightarrow> list_all (\<lambda>kv. representable (snd kv)) ys \<Longrightarrow>
         2 * length (join_comma (map member_text ys)) + 1 \<le> n \<Longrightarrow>
         parse_members n (join_comma (map member_text ys) @ CHR ''}'' # r) = Some (ys, r)"
proof (induction ys arbitrary: n)
  case Nil
  then show ?case by simp
next
  case (Cons y ys)
  obtain n' where n: "n = Suc n'"
    using Cons.prems(4) by (cases n) auto
  obtain k v where y: "y = (k, v)" by (cases y)
  have key: "parse_chars (concat (map quote_char k) @ CHR 0x22 # CHR '':'' # json_text v @ t)
               = Some (k, CHR '':'' # json_text v @ t)" for t
    by (rule parse_chars_quoted)
  have mt: "member_text (k, v) @ t
              = CHR 0x22 # concat (map quote_char k) @ CHR 0x22 # CHR '':'' # json_text v @ t"
    for t
    by (simp add: member_text_def quote_string_def)
  have lm: "length (json_text v) + 3 \<le> length (member_text y)"
    by (simp add: member_text_def quote_string_def y)
  show ?case
  proof (cases "ys = []")
    case True
    have "parse_value n' (json_text v @ CHR ''}'' # r) = Some (v, CHR ''}'' # r)"
      using Cons.prems n True lm val [where kv = y and n = n' and r = "CHR ''}'' # r"] by (simp add: y)
    then show ?thesis
      using True n by (simp add: mt key skip_ws_id is_ws_def y)
  next
    case False
    let ?rest = "join_comma (map member_text ys) @ CHR ''}'' # r"
    have len: "length (join_comma (map member_text (y # ys)))
                 = length (member_text y) + 1 + length (join_comma (map member_text ys))"
      using False by (simp add: length_join_cons)
    have layout: "join_comma (map member_text (y # ys)) @ CHR ''}'' # r
                 = member_text y @ CHR '','' # ?rest"
      using False by (simp add: join_cons)
    have a: "parse_value n' (json_text v @ CHR '','' # ?rest) = Some (v, CHR '','' # ?rest)"
      using Cons.prems n len lm val [where kv = y and n = n' and r = "CHR '','' # ?rest"] by (simp add: y)
    have b: "parse_members n' ?rest = Some (ys, r)"
      using Cons.prems n len False by (intro Cons.IH) simp_all
    show ?thesis
      unfolding layout n using a b by (simp add: mt key skip_ws_id is_ws_def y)
  qed
qed

lemma parse_json_text:
  "representable v \<Longrightarrow> number_end r \<Longrightarrow> 2 * length (json_text v) \<le> n \<Longrightarrow>
   parse_value n (json_text v @ r) = Some (v, r)"
proof (induction v arbitrary: n r)
  case JUndefined
  then show ?case by simp
next
  case JNull
  then obtain n' where "n = Suc n'" by (cases n) auto
  then show ?case by (simp add: skip_ws_id is_ws_def expect_def)
next
  case (JBool b)
  then obtain n' where "n = Suc n'" by (cases b; cases n) auto
  then show ?case by (cases b) (simp_all add: skip_ws_id is_ws_def expect_def)
next
  case (JNum m e)
  obtain c cs where t: "show_number m e = c # cs" "c = CHR ''-'' \<or> is_digit c"
    using show_number_start [of m e] JNum.prems(1) by auto
  obtain n' where n: "n = Suc n'" using JNum.prems(3) t by (cases n) auto
  have "parse_value (Suc n') (c # cs @ r) = parse_number (c # cs @ r)"
    by (rule parse_value_number [OF t(2)])
  then show ?case
    using parse_show_number [of m e r] JNum.prems t n by simp
next
  case (JStr s)
  then obtain n' where "n = Suc n'" by (cases n) (auto simp: quote_string_def)
  then show ?case
    by (simp add: quote_string_def skip_ws_id is_ws_def parse_chars_quoted)
next
  case (JArr xs)
  obtain n' where n: "n = Suc n'" using JArr.prems(3) by (cases n) auto
  show ?case
  proof (cases "xs = []")
    case True
    then show ?thesis by (simp add: n skip_ws_id is_ws_def)
  next
    case False
    then obtain x xs' where xs: "xs = x # xs'" by (cases xs) auto
    have rx: "representable x" using JArr.prems(1) xs by simp
    obtain c cs where c: "json_text x = c # cs" "value_start c"
      using json_text_start [OF rx] by auto
    obtain cs' where j: "join_comma (map json_text xs) = c # cs'"
      using c xs by (cases xs') auto
    have el: "parse_elements n' (join_comma (map json_text xs) @ CHR '']'' # r) = Some (xs, r)"
      using JArr.prems n False
      by (intro parse_elements_texts [where xs = xs] JArr.IH) simp_all
    have "parse_value (Suc n') (CHR ''['' # (c # cs') @ CHR '']'' # r) = Some (JArr xs, r)"
      using el c(2) value_start_not_ws [OF c(2)] value_start_not_close [OF c(2)]
      by (simp add: skip_ws_id is_ws_def j)
    then show ?thesis
      by (simp add: n j)
  qed
next
  case (JObj ms)
  obtain n' where n: "n = Suc n'" using JObj.prems(3) by (cases n) auto
  have flt: "filter (\<lambda>kv. snd kv \<noteq> JUndefined) ms = ms"
    using JObj.prems(1) by (auto simp: list_all_iff filter_id_conv)
  have "member_text = (\<lambda>kv. quote_string (fst kv) @ '':'' @ json_text (snd kv))"
    by (simp add: fun_eq_iff member_text_def)
  then have tx: "json_text (JObj ms) = CHR ''{'' # join_comma (map member_text ms) @ ''}''"
    by (simp add: flt)
  show ?case
  proof (cases "ms = []")
    case True
    then show ?thesis by (simp add: n skip_ws_id is_ws_def)
  next
    case False
    then obtain kv ms' where ms: "ms = kv # ms'" by (cases ms) auto
    obtain cs' where j: "join_comma (map member_text ms) = CHR 0x22 # cs'"
      using ms by (cases ms') (auto simp: member_text_def quote_string_def)
    have val: "parse_value n (json_text (snd kv) @ r) = Some (snd kv, r)"
      if "kv \<in> set ms" "representable (snd kv)" "number_end r" "2 * length (json_text (snd kv)) \<le> n"
      for kv n r
    proof -
      have "snd kv \<in> Basic_BNFs.snds kv" by (cases kv) simp
      from JObj.IH [OF that(1) this that(2) that(3) that(4)] show ?thesis .
    qed
    have el: "parse_members n' (join_comma (map member_text ms) @ CHR ''}'' # r) = Some (ms, r)"
      using JObj.prems n False tx
      by (intro parse_members_texts [where ms = ms] val) simp_all
    have pv: "parse_value (Suc n') (CHR ''{'' # (CHR 0x22 # cs') @ CHR ''}'' # r) = Some (JObj ms, r)"
      using el JObj.prems(1)
      by (simp add: skip_ws_id is_ws_def j obj_of_members_distinct)
    have layout: "json_text (JObj ms) @ r = CHR ''{'' # (CHR 0x22 # cs') @ CHR ''}'' # r"
      unfolding tx j by simp
    show ?thesis
      unfolding layout n by (fact pv)
  qed
qed

lemma JSON_parse_stringify: "representable v \<Longrightarrow> JSON_parse (JSON_stringify v) = Some v"
  using parse_json_text [of v "[]" "2 * length (json_text v) + 2"]
  by (simp add: JSON_parse_def JSON_stringify_def skip_ws_def)

section \<open>Lemmas about the \<^verbatim>\<open>Map\<close>\<close>

lemma same_value_zero_JStr [simp]: "same_value_zero (JStr a) k = (k = JStr a)"
  by (auto simp: same_value_zero_def)

lemma map_has_update:
  "map_has (map (\<lambda>kv. if same_value_zero (fst kv) k then (fst kv, v) else kv) m) k' = map_has m k'"
  by (induction m) (auto simp: map_has_def)

lemma map_get_update:
  "k' \<noteq> k \<Longrightarrow>
   map_get (map (\<lambda>kv. if same_value_zero (fst kv) k then (fst kv, v) else kv) m) k' = map_get m k'"
  by (induction m) (auto simp: map_get_def same_value_zero_def)

lemma map_has_append: "map_has (m @ [(k, v)]) k' = (map_has m k' \<or> same_value_zero k k')"
  by (induction m) (auto simp: map_has_def)

lemma map_get_append:
  "\<not> same_value_zero k k' \<Longrightarrow> map_get (m @ [(k, v)]) k' = map_get m k'"
  by (induction m) (auto simp: map_get_def)

lemma map_get_set_same: "\<not> is_object k \<Longrightarrow> map_get (map_set m k v) k = v"
  by (induction m) (auto simp: map_get_def map_set_def map_has_def same_value_zero_def)

lemma map_has_set_same: "\<not> is_object k \<Longrightarrow> map_has (map_set m k v) k"
  by (induction m) (auto simp: map_set_def map_has_def same_value_zero_def)

lemma get_set_same: "get (set_entry st K v) K = v"
  by (simp add: get_def set_entry_def map_get_set_same)

lemma has_set_same: "has (set_entry st K v) K"
  by (simp add: has_def set_entry_def map_has_set_same)

lemma map_has_iff: "map_has m k = (\<not> is_object k \<and> k \<in> fst ` set m)"
  by (induction m) (auto simp: map_has_def same_value_zero_def)

lemma add_entries_entries:
  "store_inv (acc @ st) \<Longrightarrow>
   add_entries acc (map (\<lambda>kv. JArr [fst kv, snd kv]) st) = Inr (acc @ st)"
proof (induction st arbitrary: acc)
  case Nil
  then show ?case by simp
next
  case (Cons kv st)
  have fresh: "\<not> map_has acc (fst kv)"
    using Cons.prems by (auto simp: map_has_iff store_inv_def)
  have "store_inv ((acc @ [kv]) @ st)"
    using Cons.prems by simp
  then have "add_entries (acc @ [kv]) (map (\<lambda>kv. JArr [fst kv, snd kv]) st) = Inr ((acc @ [kv]) @ st)"
    by (rule Cons.IH)
  then show ?case
    using fresh by (cases kv) (simp add: entry_of_def map_set_def)
qed

lemma initialize_entries:
  assumes "store_inv st" and "JSON_parse s = Some (entries st)"
  shows "initialize st0 s = (st, None)"
  using assms add_entries_entries [of "[]" st]
  by (simp add: initialize_def entries_def new_Map_def)

lemma add_entries_pairs:
  "add_entries acc (map (\<lambda>kv. JArr [JStr (fst kv), snd kv]) ps)
     = Inr (foldl (\<lambda>m kv. set_entry m (fst kv) (snd kv)) acc ps)"
  by (induction ps arbitrary: acc) (simp_all add: entry_of_def set_entry_def)

text \<open>The invariant of the \<^verbatim>\<open>Map\<close> holds in every state the module can reach.\<close>

lemma store_inv_map_set: "store_inv m \<Longrightarrow> store_inv (map_set m k v)"
proof -
  assume a: "store_inv m"
  have keys: "map fst (map (\<lambda>kv. if same_value_zero (fst kv) k then (fst kv, v) else kv) m) = map fst m"
    by (induction m) auto
  show ?thesis
  proof (cases "map_has m k")
    case True
    then show ?thesis using a by (simp add: map_set_def store_inv_def keys del: map_map)
  next
    case False
    then show ?thesis using a by (auto simp: map_set_def store_inv_def map_has_iff)
  qed
qed

lemma store_inv_add_entries:
  "store_inv m \<Longrightarrow> add_entries m items = Inr m' \<Longrightarrow> store_inv m'"
proof (induction items arbitrary: m)
  case Nil
  then show ?case by simp
next
  case (Cons item items)
  then obtain k v where e: "entry_of item = Some (k, v)"
    and r: "add_entries (map_set m k v) items = Inr m'"
    by (auto split: option.splits)
  have "store_inv (map_set m k v)"
    using Cons.prems(1) by (rule store_inv_map_set)
  then show ?case
    using r by (rule Cons.IH)
qed

lemma store_inv_initialize: "store_inv m \<Longrightarrow> store_inv (fst (initialize m s))"
  by (auto simp: initialize_def new_Map_def store_inv_def [of "[]"]
      split: option.splits sum.splits jsval.splits if_splits
      dest: store_inv_add_entries [rotated])

lemma store_inv_action:
  "store_inv (cacheManager w) \<Longrightarrow> store_inv (cacheManager (apply_action w a))"
proof (cases a)
  case (Settle i outcome)
  assume "store_inv (cacheManager w)"
  then show ?thesis
    using Settle
    by (auto simp: settle_def hook_settled_def preload_settled_def setState_def set_entry_def
        store_inv_map_set Let_def split: prod.splits waiter.splits sum.splits)
next
  case (InitializeCall s)
  assume "store_inv (cacheManager w)"
  then show ?thesis
    using InitializeCall store_inv_initialize by (simp add: initializeCache_def Let_def)
qed (auto simp: useCachingFetch_effect_def useCachingFetch_cleanup_def setState_def Let_def
      preload_start_def wipeCache_def clear_def store_inv_def [of "[]"] split: option.splits)

lemma store_inv_run: "store_inv (cacheManager (run init_world acts))"
proof -
  have "store_inv (cacheManager w) \<Longrightarrow> store_inv (cacheManager (foldl apply_action w acts))" for w
    by (induction acts arbitrary: w) (simp_all add: store_inv_action)
  then show ?thesis
    by (simp add: run_def init_world_def store_inv_def [of "[]"])
qed

lemma valid_pair_sequence_pairs:
  assumes "valid_pair_sequence s"
  shows "\<exists>ps. JSON_parse s = Some (JArr (map (\<lambda>kv. JArr [JStr (fst kv), snd kv]) ps))"
proof -
  obtain items where p: "JSON_parse s = Some (JArr items)"
    and all: "list_all pair_item items"
    using assms by (auto simp: valid_pair_sequence_def split: option.splits jsval.splits)
  have "\<exists>ps. items = map (\<lambda>kv. JArr [JStr (fst kv), snd kv]) ps"
    using all
  proof (induction items)
    case Nil
    then show ?case by simp
  next
    case (Cons item items)
    then obtain ps where ps: "items = map (\<lambda>kv. JArr [JStr (fst kv), snd kv]) ps" by auto
    obtain k v where "item = JArr [JStr k, v]"
      using Cons.prems by (auto elim: pair_item.elims)
    then have "item # items = map (\<lambda>kv. JArr [JStr (fst kv), snd kv]) ((k, v) # ps)"
      using ps by simp
    then show ?case by (rule exI)
  qed
  then show ?thesis using p by auto
qed

section \<open>Properties of the cache\<close>

text \<open>
  Claim C9. After \<open>clear\<close>, and so after \<open>wipeCache\<close>, \<open>has\<close> is false for every key,
  whatever the cache held before.
\<close>

theorem wipeCache_removes_all: "has (clear st) K = False \<and> has (cacheManager (wipeCache w)) K = False"
  by (simp add: has_def clear_def map_has_def wipeCache_def)

text \<open>
  Claim C10. \<open>set\<close> on key \<open>K\<close> leaves every other key \<open>K'\<close> as it was: \<open>has\<close> and \<open>get\<close>
  of \<open>K'\<close> give the same results after the call as before it.
\<close>

theorem set_leaves_other_keys:
  "K' \<noteq> K \<Longrightarrow> has (set_entry st K v) K' = has st K' \<and> get (set_entry st K v) K' = get st K'"
  by (simp add: has_def get_def set_entry_def map_set_def map_has_update map_get_update
      map_has_append map_get_append)

theorem set_leaves_other_keys_witness:
  \<open>''/b'' \<noteq> ''/a'' \<and>
   has (set_entry [(JStr ''/b'', JBool True)] ''/a'' JNull) ''/b'' = has [(JStr ''/b'', JBool True)] ''/b'' \<and>
   get (set_entry [(JStr ''/b'', JBool True)] ''/a'' JNull) ''/b'' = get [(JStr ''/b'', JBool True)] ''/b'' \<and>
   get (set_entry [(JStr ''/b'', JBool True)] ''/a'' JNull) ''/b'' = JBool True\<close>
proof -
  have h: "''/b'' \<noteq> ''/a''" by simp
  have g: "get [(JStr ''/b'', JBool True)] ''/b'' = JBool True"
    by (simp add: get_def map_get_def same_value_zero_def)
  show ?thesis using h g set_leaves_other_keys [OF h, of "[(JStr ''/b'', JBool True)]" JNull] by simp
qed

text \<open>
  Claim C2. For a cache whose keys and values are JSON-representable, \<open>initialize\<close> on
  the result of \<open>serialize\<close> succeeds and gives, whatever the cache it is called on held,
  a cache in which \<open>has\<close> and \<open>get\<close> agree with the original for every key, with the same
  entries in the same insertion order. (\<open>store_inv\<close> holds of every cache the module can
  reach: \<open>store_inv_run\<close>.)
\<close>

theorem serialize_initialize_roundtrip:
  assumes "store_inv st"
    and "list_all (\<lambda>kv. representable (fst kv) \<and> representable (snd kv)) st"
  shows "snd (initialize st0 (serialize st)) = None \<and>
         (\<forall>K. has (fst (initialize st0 (serialize st))) K = has st K \<and>
              get (fst (initialize st0 (serialize st))) K = get st K) \<and>
         fst (initialize st0 (serialize st)) = st"
proof -
  have "representable (entries st)"
    using assms(2) by (simp add: entries_def list_all_iff)
  then have "JSON_parse (serialize st) = Some (entries st)"
    unfolding serialize_def by (rule JSON_parse_stringify)
  from initialize_entries [OF assms(1) this, of st0] show ?thesis by simp
qed

theorem serialize_initialize_roundtrip_witness:
  \<open>store_inv people \<and>
   list_all (\<lambda>kv. representable (fst kv) \<and> representable (snd kv)) people \<and>
   serialize people = ''[["/people",[{"id":1,"name":"Ann"}]],["/n",-1.5]]'' \<and>
   initialize [(JStr ''/old'', JNull)] (serialize people) = (people, None) \<and>
   get (fst (initialize [(JStr ''/old'', JNull)] (serialize people))) ''/people''
     = JArr [JObj [(''id'', JNum 1 0), (''name'', JStr ''Ann'')]] \<and>
   has (fst (initialize [(JStr ''/old'', JNull)] (serialize people))) ''/old'' = False\<close>
proof -
  have a: "store_inv people" by code_simp
  have b: "list_all (\<lambda>kv. representable (fst kv) \<and> representable (snd kv)) people"
    by code_simp
  have c: \<open>get people ''/people'' = JArr [JObj [(''id'', JNum 1 0), (''name'', JStr ''Ann'')]]\<close>
    by code_simp
  have d: \<open>has people ''/old'' = False\<close> by code_simp
  have e: \<open>serialize people = ''[["/people",[{"id":1,"name":"Ann"}]],["/n",-1.5]]''\<close>
    by code_simp
  show ?thesis
    using a b c d e serialize_initialize_roundtrip [OF a b, of "[(JStr ''/old'', JNull)]"]
    by (metis prod.collapse)
qed

text \<open>
  Claim C3, as stated, fails: the text \<^verbatim>\<open>null\<close> is not an encoded sequence of pairs, yet
  \<open>initialize\<close> throws nothing and empties the cache.
\<close>

theorem initialize_null_counterexample:
  \<open>\<not> valid_pair_sequence ''null'' \<and>
   initialize [(JStr ''/people'', JNum 1 0)] ''null'' = ([], None)\<close>
  by code_simp

text \<open>
  Claim C3, amended. When the text is a validly encoded sequence of pairs, the cache
  becomes exactly the decoded pairs, set in order into an empty map: earlier contents are
  discarded. When \<open>initialize\<close> throws, the cache is unchanged; it throws exactly when
  \<^verbatim>\<open>JSON.parse\<close> or the \<^verbatim>\<open>Map\<close> constructor does. When it does not throw, the new contents
  do not depend on the earlier ones.
\<close>

theorem initialize_replaces_or_keeps:
  "(valid_pair_sequence s \<longrightarrow>
      (\<exists>ps. JSON_parse s = Some (JArr (map (\<lambda>kv. JArr [JStr (fst kv), snd kv]) ps)) \<and>
            initialize st s = (foldl (\<lambda>m kv. set_entry m (fst kv) (snd kv)) [] ps, None))) \<and>
   (snd (initialize st s) \<noteq> None \<longrightarrow> fst (initialize st s) = st) \<and>
   (snd (initialize st s) = None \<longrightarrow> fst (initialize st s) = fst (initialize [] s)) \<and>
   snd (initialize st s) =
     (case JSON_parse s of
        None \<Rightarrow> Some SyntaxError
      | Some j \<Rightarrow> (case new_Map j of Inl e \<Rightarrow> Some e | Inr m \<Rightarrow> None))"
proof -
  have "\<exists>ps. JSON_parse s = Some (JArr (map (\<lambda>kv. JArr [JStr (fst kv), snd kv]) ps)) \<and>
            initialize st s = (foldl (\<lambda>m kv. set_entry m (fst kv) (snd kv)) [] ps, None)"
    if v: "valid_pair_sequence s"
  proof -
    obtain ps where "JSON_parse s = Some (JArr (map (\<lambda>kv. JArr [JStr (fst kv), snd kv]) ps))"
      using valid_pair_sequence_pairs [OF v] by blast
    then show ?thesis
      by (auto simp: initialize_def new_Map_def add_entries_pairs)
  qed
  then show ?thesis
    by (auto simp: initialize_def new_Map_def split: option.splits sum.splits)
qed

theorem initialize_replaces_or_keeps_witness:
  \<open>initialize [(JStr ''/old'', JBool True)] ''[["/a",1],["/b",null]]''
     = ([(JStr ''/a'', JNum 1 0), (JStr ''/b'', JNull)], None) \<and>
   initialize [(JStr ''/old'', JBool True)] ''[["/a",1],5]''
     = ([(JStr ''/old'', JBool True)], Some TypeError) \<and>
   initialize [(JStr ''/old'', JBool True)] ''[["/a",1''
     = ([(JStr ''/old'', JBool True)], Some SyntaxError)\<close>
proof -
  let ?st = "[(JStr ''/old'', JBool True)]"
  let ?ps = "[(''/a'', JNum 1 0), (''/b'', JNull)]"
  let ?f = "\<lambda>kv. JArr [JStr (fst kv), snd kv]"
  have v1: \<open>valid_pair_sequence ''[["/a",1],["/b",null]]''\<close>
    by code_simp
  have p1: \<open>JSON_parse ''[["/a",1],["/b",null]]'' = Some (JArr (map ?f ?ps))\<close>
    by code_simp
  have f1: "foldl (\<lambda>m kv. set_entry m (fst kv) (snd kv)) [] ?ps
              = [(JStr ''/a'', JNum 1 0), (JStr ''/b'', JNull)]"
    by code_simp
  have p2: \<open>JSON_parse ''[["/a",1],5]'' = Some (JArr [JArr [JStr ''/a'', JNum 1 0], JNum 5 0])\<close>
    by code_simp
  have n2: \<open>new_Map (JArr [JArr [JStr ''/a'', JNum 1 0], JNum 5 0]) = Inl TypeError\<close>
    by code_simp
  have p3: \<open>JSON_parse ''[["/a",1'' = None\<close>
    by code_simp
  have inj: "map ?f ps = map ?f ?ps \<Longrightarrow> ps = ?ps" for ps
    by (auto simp: map_eq_Cons_conv prod_eq_iff)
  have a: \<open>initialize ?st ''[["/a",1],["/b",null]]''
     = ([(JStr ''/a'', JNum 1 0), (JStr ''/b'', JNull)], None)\<close>
    using initialize_replaces_or_keeps [of \<open>''[["/a",1],["/b",null]]''\<close> ?st] v1 p1 f1 inj
    by auto
  have b: \<open>initialize ?st ''[["/a",1],5]'' = (?st, Some TypeError)\<close>
    using initialize_replaces_or_keeps [of \<open>''[["/a",1],5]''\<close> ?st] p2 n2
    by (metis (no_types, lifting) option.simps(5) option.distinct(1) sum.simps(5) prod.collapse)
  have c: \<open>initialize ?st ''[["/a",1'' = (?st, Some SyntaxError)\<close>
    using initialize_replaces_or_keeps [of \<open>''[["/a",1''\<close> ?st] p3
    by (metis (no_types, lifting) option.simps(4) option.distinct(1) prod.collapse)
  show ?thesis using a b c by simp
qed

section \<open>Properties of \<^verbatim>\<open>preloadCachingFetch\<close>\<close>

text \<open>
  Claim C4. \<open>preloadCachingFetch\<close> on a key the cache has returns at once, changing
  nothing and calling \<^verbatim>\<open>fetch\<close> not at all. Otherwise it calls \<^verbatim>\<open>fetch\<close> once and waits;
  when the fetch settles it continues. On a response with a success status and a JSON
  body the value is set in the cache under the key and the promise is fulfilled. On any
  other status the promise is rejected with an \<^verbatim>\<open>Error\<close> whose message contains the
  status in decimal, and the cache is as it was, so still without the key.
\<close>

theorem preloadCachingFetch_behaviour:
  "(has (cacheManager w) K \<longrightarrow> preload_start w K = (w, True)) \<and>
   (\<not> has (cacheManager w) K \<longrightarrow>
      preload_start w K
        = (w\<lparr>network := network w @ [K], pending := pending w @ [(Preload, K)]\<rparr>, False) \<and>
      settle (w\<lparr>network := network w @ [K], pending := pending w @ [(Preload, K)]\<rparr>)
        (length (pending w)) outcome
        = fst (preload_settled (w\<lparr>network := network w @ [K]\<rparr>) K outcome)) \<and>
   (response_ok status \<and> JSON_parse body = Some d \<longrightarrow>
      preload_settled w K (HttpResponse status body)
        = (w\<lparr>cacheManager := set_entry (cacheManager w) K d\<rparr>, None) \<and>
      has (set_entry (cacheManager w) K d) K \<and>
      get (set_entry (cacheManager w) K d) K = d) \<and>
   (\<not> response_ok status \<longrightarrow>
      preload_settled w K (HttpResponse status body)
        = (w, Some (Error (''HTTP error! status: '' @ show_nat status))) \<and>
      sublist (show_nat status) (''HTTP error! status: '' @ show_nat status) \<and>
      (\<not> has (cacheManager w) K \<longrightarrow>
         \<not> has (cacheManager (fst (preload_settled w K (HttpResponse status body)))) K))"
proof (intro conjI impI)
  show "settle (w\<lparr>network := network w @ [K], pending := pending w @ [(Preload, K)]\<rparr>)
        (length (pending w)) outcome
        = fst (preload_settled (w\<lparr>network := network w @ [K]\<rparr>) K outcome)" if "\<not> has (cacheManager w) K"
    using that by (simp add: preload_start_def settle_def preload_settled_def split: sum.splits)
  show "sublist (show_nat status) (''HTTP error! status: '' @ show_nat status)"
    by (rule suffix_imp_sublist) (rule suffix_appendI, rule suffix_order.refl)
qed (simp_all add: preload_start_def preload_settled_def read_response_def has_set_same get_set_same)


theorem preloadCachingFetch_behaviour_witness:
  \<open>preload_start (init_world\<lparr>cacheManager := [(JStr ''/people'', JNull)]\<rparr>) ''/people''
     = (init_world\<lparr>cacheManager := [(JStr ''/people'', JNull)]\<rparr>, True) \<and>
   network (fst (preload_start init_world ''/people'')) = [''/people''] \<and>
   snd (preload_start init_world ''/people'') = False \<and>
   cacheManager (settle (fst (preload_start init_world ''/people'')) 0
                   (HttpResponse 200 ''[{"id":1,"name":"Ann"}]''))
     = [(JStr ''/people'', JArr [JObj [(''id'', JNum 1 0), (''name'', JStr ''Ann'')]])] \<and>
   preload_settled init_world ''/people'' (HttpResponse 404 ''Not Found'')
     = (init_world, Some (Error ''HTTP error! status: 404''))\<close>
proof -
  let ?w1 = "init_world\<lparr>cacheManager := [(JStr ''/people'', JNull)]\<rparr>"
  let ?ann = "JArr [JObj [(''id'', JNum 1 0), (''name'', JStr ''Ann'')]]"
  have h1: "has (cacheManager ?w1) ''/people''"
    by (simp add: has_def map_has_def)
  have h0: "\<not> has (cacheManager init_world) ''/people''"
    by (simp add: has_def map_has_def init_world_def)
  have ok: "response_ok 200" and nok: "\<not> response_ok 404"
    by (simp_all add: response_ok_def)
  have body: \<open>JSON_parse ''[{"id":1,"name":"Ann"}]'' = Some ?ann\<close>
    by code_simp
  have s404: "show_nat 404 = ''404''"
    by code_simp
  have p0: "pending init_world = []" "network init_world = []" "cacheManager init_world = []"
    by (simp_all add: init_world_def)
  have a: "preload_start ?w1 ''/people'' = (?w1, True)"
    using preloadCachingFetch_behaviour [where w = ?w1 and K = "''/people''" and outcome = NetworkFailure
        and status = 200 and body = "[]" and d = JNull] h1 by simp
  have b: "preload_start init_world ''/people''
             = (init_world\<lparr>network := [''/people''], pending := [(Preload, ''/people'')]\<rparr>, False)"
    using preloadCachingFetch_behaviour [where w = init_world and K = "''/people''" and outcome = NetworkFailure
        and status = 200 and body = "[]" and d = JNull] h0 p0 by simp
  have c: \<open>settle (init_world\<lparr>network := [''/people''], pending := [(Preload, ''/people'')]\<rparr>) 0
              (HttpResponse 200 ''[{"id":1,"name":"Ann"}]'')
             = fst (preload_settled (init_world\<lparr>network := [''/people'']\<rparr>) ''/people''
                      (HttpResponse 200 ''[{"id":1,"name":"Ann"}]''))\<close>
    using preloadCachingFetch_behaviour [where w = init_world and K = "''/people''"
        and outcome = \<open>HttpResponse 200 ''[{"id":1,"name":"Ann"}]''\<close>
        and status = 200 and body = "[]" and d = JNull] h0 p0
    by simp
  have d: \<open>preload_settled (init_world\<lparr>network := [''/people'']\<rparr>) ''/people''
              (HttpResponse 200 ''[{"id":1,"name":"Ann"}]'')
             = (init_world\<lparr>network := [''/people''],
                  cacheManager := set_entry [] ''/people'' ?ann\<rparr>, None)\<close>
    using preloadCachingFetch_behaviour [where w = "init_world\<lparr>network := [''/people'']\<rparr>" and K = "''/people''"
        and outcome = NetworkFailure and status = 200
        and body = \<open>''[{"id":1,"name":"Ann"}]''\<close> and d = ?ann] ok body p0
    by simp
  have e: "set_entry [] ''/people'' ?ann = [(JStr ''/people'', ?ann)]"
    by (simp add: set_entry_def map_set_def map_has_def)
  have f: "preload_settled init_world ''/people'' (HttpResponse 404 ''Not Found'')
             = (init_world, Some (Error ''HTTP error! status: 404''))"
    using preloadCachingFetch_behaviour [where w = init_world and K = "''/people''" and outcome = NetworkFailure
        and status = 404 and body = "''Not Found''" and d = JNull] nok s404 by simp
  show ?thesis using a b c d e f by simp
qed

section \<open>Properties of \<^verbatim>\<open>useCachingFetch\<close>\<close>

subsection \<open>Evaluating runs\<close>

lemma ann_body: \<open>JSON_parse ''[{"id":1,"name":"Ann"}]''
    = Some (JArr [JObj [(''id'', JNum 1 0), (''name'', JStr ''Ann'')]])\<close>
  by code_simp

lemma ok_200: "response_ok 200"
  by (simp add: response_ok_def)

lemmas run_simps = run_def useCachingFetch_effect_def useCachingFetch_cleanup_def
  setState_def settle_def hook_settled_def preload_start_def preload_settled_def read_response_def
  useCachingFetch_def has_def get_def set_entry_def map_has_def map_get_def map_set_def Let_def

lemma cleanup_frame:
  "cacheManager (useCachingFetch_cleanup w c) = cacheManager w"
  "network (useCachingFetch_cleanup w c) = network w"
  "views (useCachingFetch_cleanup w c) = views w"
  "pending (useCachingFetch_cleanup w c) = pending w"
  by (simp_all add: useCachingFetch_cleanup_def split: option.splits)

subsection \<open>The shape of a component's state is kept by every step\<close>

lemma delivered_snoc:
  "delivered w (acts @ [a]) c d = (delivered w acts c d \<or> delivers (run w acts) a c d)"
  by (induction acts arbitrary: w) (auto simp: run_def)

lemma run_snoc: "run w (acts @ [a]) = apply_action (run w acts) a"
  by (simp add: run_def)

lemma cleanup_mounted_frame:
  "cacheManager (useCachingFetch_cleanup w c) = cacheManager w"
  "views (useCachingFetch_cleanup w c) = views w"
  by (simp_all add: useCachingFetch_cleanup_def split: option.splits)

lemma step_view:
  "views (apply_action w a) c = views w c \<or>
   isLoading (views (apply_action w a) c) \<or>
   (error (views (apply_action w a) c) \<noteq> None \<and> data (views (apply_action w a) c) = JNull) \<or>
   (error (views (apply_action w a) c) = None \<and>
      delivers w a c (data (views (apply_action w a) c)))"
proof (cases a)
  case (Subscribe c' url)
  then show ?thesis
    by (auto simp: useCachingFetch_effect_def setState_def cleanup_mounted_frame Let_def)
next
  case (Dispose c')
  then show ?thesis by (simp add: cleanup_mounted_frame)
next
  case (Settle i outcome)
  show ?thesis
  proof (cases "i < length (pending w)")
    case False
    then show ?thesis using Settle by (simp add: settle_def)
  next
    case True
    obtain wt url where p: "pending w ! i = (wt, url)" by (cases "pending w ! i")
    show ?thesis
    proof (cases wt)
      case (Hook e c')
      then show ?thesis
        using Settle True p
        by (auto simp: settle_def hook_settled_def setState_def Let_def split: sum.splits)
    next
      case Preload
      then show ?thesis
        using Settle True p
        by (auto simp: settle_def preload_settled_def Let_def split: sum.splits)
    qed
  qed
next
  case (PreloadCall url)
  then show ?thesis by (simp add: preload_start_def)
next
  case (InitializeCall s)
  then show ?thesis by (simp add: initializeCache_def Let_def)
next
  case WipeCall
  then show ?thesis by (simp add: wipeCache_def)
qed

lemma view_shape_run:
  "view_shape (views (run init_world acts) c) (delivered init_world acts c (data (views (run init_world acts) c)))"
proof (induction acts rule: rev_induct)
  case Nil
  then show ?case
    by (simp add: run_def init_world_def initial_view_def view_shape_def)
next
  case (snoc a acts)
  let ?w = "run init_world acts"
  show ?case
    using snoc step_view [of ?w a c]
    unfolding run_snoc delivered_snoc view_shape_def
    by auto
qed

subsection \<open>The claims\<close>

text \<open>
  Claim C1 says that two consumers asking for the same key, while the cache has no entry
  for it and before either fetch settles, start exactly one network operation. The hook
  has no table of fetches in flight: each effect run that misses the cache calls
  \<^verbatim>\<open>fetch\<close>. From the initial state, two components subscribing to \<^verbatim>\<open>/people\<close> give two
  calls of \<^verbatim>\<open>fetch\<close> and two fetches in flight for that key.
\<close>

theorem concurrent_fetches_code:
  "network (run init_world [Subscribe 0 ''/people'', Subscribe 1 ''/people''])
     = [''/people'', ''/people''] \<and>
   pending (run init_world [Subscribe 0 ''/people'', Subscribe 1 ''/people''])
     = [(Hook 0 0, ''/people''), (Hook 1 1, ''/people'')] \<and>
   cacheManager (run init_world [Subscribe 0 ''/people'', Subscribe 1 ''/people'']) = []"
  by (simp add: run_def init_world_def useCachingFetch_effect_def useCachingFetch_cleanup_def
      setState_def has_def map_has_def Let_def)

text \<open>
  Claim C5. When the fetch of a live subscription for \<open>K\<close> settles with a status outside
  200 to 299, the component's state becomes \<open>isLoading = False\<close>, \<open>data = JNull\<close> and an
  \<^verbatim>\<open>Error\<close> carrying the status; the cache is not written, so \<open>K\<close> stays absent; and the
  next subscription to \<open>K\<close>, by any component, calls \<^verbatim>\<open>fetch\<close> again.
\<close>

theorem failed_fetch_observed:
  assumes "i < length (pending w)" and "pending w ! i = (Hook e c, K)" and "isMounted w e"
    and "\<not> response_ok status" and "\<not> has (cacheManager w) K"
  shows "useCachingFetch (settle w i (HttpResponse status body)) c
           = \<lparr>isLoading = False, data = JNull,
              error = Some (Error (''HTTP error! status: '' @ show_nat status))\<rparr> \<and>
         \<not> has (cacheManager (settle w i (HttpResponse status body))) K \<and>
         network (apply_action (settle w i (HttpResponse status body)) (Subscribe c' K))
           = network (settle w i (HttpResponse status body)) @ [K]"
proof -
  let ?w' = "settle w i (HttpResponse status body)"
  have w': "?w' = setState (w\<lparr>pending := take i (pending w) @ drop (Suc i) (pending w)\<rparr>) c
                    \<lparr>isLoading = False, data = JNull,
                     error = Some (Error (''HTTP error! status: '' @ show_nat status))\<rparr>"
    using assms by (simp add: settle_def hook_settled_def read_response_def)
  have c: "cacheManager ?w' = cacheManager w"
    by (simp add: w' setState_def)
  have "network (useCachingFetch_effect (useCachingFetch_cleanup ?w' c') c' K) = network ?w' @ [K]"
    using assms(5) c by (simp add: useCachingFetch_effect_def cleanup_frame setState_def Let_def)
  then show ?thesis
    using assms(5) c by (simp add: w' useCachingFetch_def setState_def)
qed

theorem failed_fetch_observed_witness:
  "useCachingFetch (run init_world [Subscribe 0 ''/people'', Settle 0 (HttpResponse 500 ''oops'')]) 0
     = \<lparr>isLoading = False, data = JNull, error = Some (Error ''HTTP error! status: 500'')\<rparr> \<and>
   \<not> has (cacheManager (run init_world [Subscribe 0 ''/people'', Settle 0 (HttpResponse 500 ''oops'')])) ''/people'' \<and>
   network (run init_world [Subscribe 0 ''/people'', Settle 0 (HttpResponse 500 ''oops''), Subscribe 1 ''/people''])
     = [''/people'', ''/people'']"
proof -
  let ?w = "run init_world [Subscribe 0 ''/people'']"
  have w: "?w = init_world\<lparr>views := (views init_world)(0 := \<lparr>isLoading = True, data = JNull, error = None\<rparr>),
                    isMounted := (isMounted init_world)(0 := True),
                    network := [''/people''], pending := [(Hook 0 0, ''/people'')],
                    cleanups := (cleanups init_world)(0 := Some 0), effects := Suc 0\<rparr>"
    by (simp add: run_def init_world_def useCachingFetch_effect_def useCachingFetch_cleanup_def
      setState_def has_def map_has_def Let_def)
  have h1: "0 < length (pending ?w)" and h2: "pending ?w ! 0 = (Hook 0 0, ''/people'')"
    and h3: "isMounted ?w 0" and h5: "\<not> has (cacheManager ?w) ''/people''"
    and n: "network ?w = [''/people'']"
    unfolding w by (simp_all add: init_world_def has_def map_has_def)
  have h4: "\<not> response_ok 500" by (simp add: response_ok_def)
  have s: "show_nat 500 = ''500''" by code_simp
  have r: "run init_world [Subscribe 0 ''/people'', Settle 0 (HttpResponse 500 ''oops'')]
             = settle ?w 0 (HttpResponse 500 ''oops'')"
          "run init_world [Subscribe 0 ''/people'', Settle 0 (HttpResponse 500 ''oops''), Subscribe 1 ''/people'']
             = apply_action (settle ?w 0 (HttpResponse 500 ''oops'')) (Subscribe 1 ''/people'')"
    by (simp_all add: run_def)
  have n': "network (settle ?w 0 (HttpResponse 500 ''oops'')) = [''/people'']"
    using n h1 h2 h3 h4 by (simp add: settle_def hook_settled_def read_response_def setState_def)
  show ?thesis
    using failed_fetch_observed [OF h1 h2 h3 h4 h5, of "''oops''" 1] s n'
    unfolding r by simp
qed

text \<open>
  Claim C6 says that a consumer subscribing to a key the cache already has never observes
  a loading state. The cached value is delivered by the effect, which runs after the first
  render; the first render returns the initial state of \<^verbatim>\<open>useState\<close>, with
  \<open>isLoading = True\<close>. Here the cache has \<^verbatim>\<open>/people\<close> after a preload; component 0 then
  renders with \<open>isLoading = True\<close>, and only its effect gives the cached value, with no
  further call of \<^verbatim>\<open>fetch\<close>.
\<close>

theorem cached_key_first_render_code:
  \<open>has (cacheManager (run init_world
          [PreloadCall ''/people'', Settle 0 (HttpResponse 200 ''[{"id":1,"name":"Ann"}]'')])) ''/people'' \<and>
   isLoading (useCachingFetch (run init_world
          [PreloadCall ''/people'', Settle 0 (HttpResponse 200 ''[{"id":1,"name":"Ann"}]'')]) 0) \<and>
   useCachingFetch (run init_world
          [PreloadCall ''/people'', Settle 0 (HttpResponse 200 ''[{"id":1,"name":"Ann"}]''),
           Subscribe 0 ''/people'']) 0
     = \<lparr>isLoading = False, data = JArr [JObj [(''id'', JNum 1 0), (''name'', JStr ''Ann'')]],
        error = None\<rparr> \<and>
   network (run init_world
          [PreloadCall ''/people'', Settle 0 (HttpResponse 200 ''[{"id":1,"name":"Ann"}]''),
           Subscribe 0 ''/people'']) = [''/people'']\<close>
  by (simp add: run_simps init_world_def initial_view_def ann_body ok_200)

text \<open>
  Claim C7, as stated, fails: the write to the cache is inside the same \<^verbatim>\<open>if (isMounted)\<close>
  as \<^verbatim>\<open>setState\<close>. A fetch that succeeds after its subscription was disposed leaves the
  cache without the key.
\<close>

theorem disposed_fetch_counterexample:
  \<open>read_response (HttpResponse 200 ''[{"id":1,"name":"Ann"}]'')
     = Inr (JArr [JObj [(''id'', JNum 1 0), (''name'', JStr ''Ann'')]]) \<and>
   \<not> has (cacheManager (run init_world
          [Subscribe 0 ''/people'', Dispose 0,
           Settle 0 (HttpResponse 200 ''[{"id":1,"name":"Ann"}]'')])) ''/people''\<close>
  by (simp add: run_simps init_world_def initial_view_def ann_body ok_200)

text \<open>
  Claim C7, amended. When a hook's fetch settles after its subscription was disposed, the
  result is discarded: neither the cache nor any component's state changes. When it
  settles with a value while the subscription is live, the value is set in the cache
  under the key and the component's state becomes the resolved one.
\<close>

theorem disposed_fetch_discarded:
  assumes "i < length (pending w)" and "pending w ! i = (Hook e c, K)"
  shows "(\<not> isMounted w e \<longrightarrow>
            cacheManager (settle w i outcome) = cacheManager w \<and>
            views (settle w i outcome) = views w) \<and>
         (isMounted w e \<and> read_response outcome = Inr d \<longrightarrow>
            cacheManager (settle w i outcome) = set_entry (cacheManager w) K d \<and>
            useCachingFetch (settle w i outcome) c = \<lparr>isLoading = False, data = d, error = None\<rparr>)"
  using assms
  by (auto simp: settle_def hook_settled_def setState_def useCachingFetch_def Let_def
      split: sum.splits)


theorem disposed_fetch_discarded_witness:
  \<open>cacheManager (run init_world [Subscribe 0 ''/people'', Dispose 0,
                    Settle 0 (HttpResponse 200 ''[{"id":1,"name":"Ann"}]'')]) = [] \<and>
   useCachingFetch (run init_world [Subscribe 0 ''/people'', Dispose 0,
                    Settle 0 (HttpResponse 200 ''[{"id":1,"name":"Ann"}]'')]) 0
     = \<lparr>isLoading = True, data = JNull, error = None\<rparr> \<and>
   cacheManager (run init_world [Subscribe 0 ''/people'',
                    Settle 0 (HttpResponse 200 ''[{"id":1,"name":"Ann"}]'')])
     = [(JStr ''/people'', JArr [JObj [(''id'', JNum 1 0), (''name'', JStr ''Ann'')]])] \<and>
   useCachingFetch (run init_world [Subscribe 0 ''/people'',
                    Settle 0 (HttpResponse 200 ''[{"id":1,"name":"Ann"}]'')]) 0
     = \<lparr>isLoading = False, data = JArr [JObj [(''id'', JNum 1 0), (''name'', JStr ''Ann'')]],
        error = None\<rparr>\<close>
proof -
  let ?ann = "JArr [JObj [(''id'', JNum 1 0), (''name'', JStr ''Ann'')]]"
  let ?out = \<open>HttpResponse 200 ''[{"id":1,"name":"Ann"}]''\<close>
  let ?w1 = "run init_world [Subscribe 0 ''/people'']"
  let ?w2 = "run init_world [Subscribe 0 ''/people'', Dispose 0]"
  have r: "read_response ?out = Inr ?ann"
    by (simp add: read_response_def ann_body ok_200)
  have w1: "0 < length (pending ?w1)" "pending ?w1 ! 0 = (Hook 0 0, ''/people'')" "isMounted ?w1 0"
    "cacheManager ?w1 = []"
    by (simp_all add: run_simps init_world_def)
  have w2: "0 < length (pending ?w2)" "pending ?w2 ! 0 = (Hook 0 0, ''/people'')" "\<not> isMounted ?w2 0"
    "cacheManager ?w2 = []" "views ?w2 0 = \<lparr>isLoading = True, data = JNull, error = None\<rparr>"
    by (simp_all add: run_simps init_world_def)
  have s: "run init_world [Subscribe 0 ''/people'', Dispose 0, Settle 0 ?out] = settle ?w2 0 ?out"
    "run init_world [Subscribe 0 ''/people'', Settle 0 ?out] = settle ?w1 0 ?out"
    by (simp_all add: run_def)
  have e: "set_entry [] ''/people'' ?ann = [(JStr ''/people'', ?ann)]"
    by (simp add: set_entry_def map_set_def map_has_def)
  have a: "cacheManager (settle ?w2 0 ?out) = [] \<and>
           useCachingFetch (settle ?w2 0 ?out) 0 = \<lparr>isLoading = True, data = JNull, error = None\<rparr>"
    using disposed_fetch_discarded [OF w2(1) w2(2), of ?out ?ann] w2(3) w2(4) w2(5)
    by (simp add: useCachingFetch_def)
  have b: "cacheManager (settle ?w1 0 ?out) = [(JStr ''/people'', ?ann)] \<and>
           useCachingFetch (settle ?w1 0 ?out) 0 = \<lparr>isLoading = False, data = ?ann, error = None\<rparr>"
    using disposed_fetch_discarded [OF w1(1) w1(2), of ?out ?ann] w1(3) w1(4) r e
    by simp
  show ?thesis
    unfolding s using a b by simp
qed

text \<open>
  Claim C8, as stated, fails: a fetch that succeeds with the JSON value \<^verbatim>\<open>null\<close> leaves the
  component with \<open>isLoading = False\<close> and both \<open>data\<close> and \<open>error\<close> null.
\<close>

theorem settled_view_both_null_counterexample:
  \<open>useCachingFetch (run init_world [Subscribe 0 ''/x'', Settle 0 (HttpResponse 200 ''null'')]) 0
     = \<lparr>isLoading = False, data = JNull, error = None\<rparr>\<close>
proof -
  have p: "JSON_parse ''null'' = Some JNull" by code_simp
  show ?thesis
    by (simp add: run_def useCachingFetch_effect_def useCachingFetch_cleanup_def
      setState_def settle_def hook_settled_def read_response_def
      useCachingFetch_def has_def map_has_def Let_def init_world_def p response_ok_def)
qed

text \<open>
  Claim C8, amended. In every state reached from the initial one by any sequence of
  subscriptions, disposals, settlements, preloads, initialisations and wipes, a component
  whose state has \<open>isLoading = False\<close> either has an error and null data, or has no error
  and data that a step of the run delivered to it (the value found in the cache or decoded
  from the response). So exactly one of \<open>data\<close> and \<open>error\<close> is non-null, except that both
  are null when the value delivered, fetched or cached, is itself null.
\<close>

theorem settled_view_one_unless_null:
  "\<not> isLoading (useCachingFetch (run init_world acts) c) \<longrightarrow>
     ((error (useCachingFetch (run init_world acts) c) \<noteq> None \<and>
       data (useCachingFetch (run init_world acts) c) = JNull) \<or>
      (error (useCachingFetch (run init_world acts) c) = None \<and>
       delivered init_world acts c (data (useCachingFetch (run init_world acts) c)))) \<and>
     (((data (useCachingFetch (run init_world acts) c) \<noteq> JNull)
         \<noteq> (error (useCachingFetch (run init_world acts) c) \<noteq> None)) \<or>
      (data (useCachingFetch (run init_world acts) c) = JNull \<and>
       error (useCachingFetch (run init_world acts) c) = None \<and>
       delivered init_world acts c JNull))"
  using view_shape_run [of acts c]
  by (auto simp: view_shape_def useCachingFetch_def)

theorem settled_view_one_unless_null_witness:
  \<open>useCachingFetch (run init_world [InitializeCall ''[["/x",null]]'', Subscribe 0 ''/x'']) 0
     = \<lparr>isLoading = False, data = JNull, error = None\<rparr> \<and>
   delivered init_world [InitializeCall ''[["/x",null]]'', Subscribe 0 ''/x''] 0 JNull \<and>
   network (run init_world [InitializeCall ''[["/x",null]]'', Subscribe 0 ''/x'']) = [] \<and>
   useCachingFetch (run init_world [Subscribe 0 ''/x'', Settle 0 (HttpResponse 500 ''oops'')]) 0
     = \<lparr>isLoading = False, data = JNull, error = Some (Error ''HTTP error! status: 500'')\<rparr> \<and>
   \<not> delivered init_world [Subscribe 0 ''/x'', Settle 0 (HttpResponse 500 ''oops'')] 0 JNull \<and>
   useCachingFetch (run init_world [Subscribe 0 ''/x'', Settle 0 (HttpResponse 200 ''[1]'')]) 0
     = \<lparr>isLoading = False, data = JArr [JNum 1 0], error = None\<rparr> \<and>
   delivered init_world [Subscribe 0 ''/x'', Settle 0 (HttpResponse 200 ''[1]'')] 0 (JArr [JNum 1 0])\<close>
proof -
  let ?a1 = \<open>[InitializeCall ''[["/x",null]]'', Subscribe 0 ''/x'']\<close>
  let ?a2 = "[Subscribe 0 ''/x'', Settle 0 (HttpResponse 500 ''oops'')]"
  let ?a3 = "[Subscribe 0 ''/x'', Settle 0 (HttpResponse 200 ''[1]'')]"
  have i: \<open>initialize [] ''[["/x",null]]'' = ([(JStr ''/x'', JNull)], None)\<close>
    by code_simp
  have p: "JSON_parse ''[1]'' = Some (JArr [JNum 1 0])"
    by code_simp
  have s: "show_nat 500 = ''500''"
    by code_simp
  have v1: "useCachingFetch (run init_world ?a1) 0 = \<lparr>isLoading = False, data = JNull, error = None\<rparr>"
    and n1: "network (run init_world ?a1) = []"
    by (simp_all add: run_simps initializeCache_def init_world_def i)
  have v2: "useCachingFetch (run init_world ?a2) 0
              = \<lparr>isLoading = False, data = JNull, error = Some (Error ''HTTP error! status: 500'')\<rparr>"
    by (simp add: run_simps init_world_def response_ok_def s)
  have d2: "\<not> delivered init_world ?a2 0 JNull"
    by (simp add: run_simps init_world_def response_ok_def)
  have v3: "useCachingFetch (run init_world ?a3) 0
              = \<lparr>isLoading = False, data = JArr [JNum 1 0], error = None\<rparr>"
    by (simp add: run_simps init_world_def response_ok_def p)
  have d1: "delivered init_world ?a1 0 JNull"
    using settled_view_one_unless_null [of ?a1 0] unfolding v1 by simp
  have d3: "delivered init_world ?a3 0 (JArr [JNum 1 0])"
    using settled_view_one_unless_null [of ?a3 0] unfolding v3 by simp
  show ?thesis
    using v1 d1 n1 v2 d2 v3 d3 by simp
qed

end
